theory Spec2Isabelle
  imports Main
begin

section \<open>JavaScript objects and Maps\<close>

text \<open>
  The registry reads its inputs through \<^verbatim>\<open>Object.keys\<close>, property reads, the object spread
  \<^verbatim>\<open>{...a, ...b}\<close> and \<^verbatim>\<open>hasOwnProperty\<close>. An object is modelled by its own properties in
  the order in which they were created (keys distinct). \<^verbatim>\<open>Object.keys\<close> does not enumerate in
  creation order: ECMAScript lists the keys that are array indices (canonical decimal
  numerals up to \<open>2^32 - 2\<close>) first, in ascending numeric order, and all other string keys
  after them in creation order.
\<close>

type_synonym 'a js_object = "(string \<times> 'a) list"

fun obj_set :: "'a js_object \<Rightarrow> string \<Rightarrow> 'a \<Rightarrow> 'a js_object" where
  "obj_set [] k v = [(k, v)]"
| "obj_set ((k', v') # ps) k v = (if k' = k then (k, v) # ps else (k', v') # obj_set ps k v)"

definition obj_get :: "'a js_object \<Rightarrow> string \<Rightarrow> 'a option" where
  "obj_get obj k = map_of obj k"

text \<open>Whether an object has an own property of that name: what
  \<^verbatim>\<open>Object.prototype.hasOwnProperty\<close> computes for the object. The method call
  \<^verbatim>\<open>obj.hasOwnProperty(k)\<close>, which looks the method up on the object first, is
  \<open>call_hasOwnProperty\<close> below.\<close>

definition hasOwnProperty :: "'a js_object \<Rightarrow> string \<Rightarrow> bool" where
  "hasOwnProperty obj k = (case map_of obj k of None \<Rightarrow> False | Some v \<Rightarrow> True)"

text \<open>Reading a property whose value may be \<^verbatim>\<open>undefined\<close>: a missing property reads as
  \<^verbatim>\<open>undefined\<close> too.\<close>

definition obj_read :: "'a option js_object \<Rightarrow> string \<Rightarrow> 'a option" where
  "obj_read obj k = (case map_of obj k of None \<Rightarrow> None | Some v \<Rightarrow> v)"

definition is_digit :: "char \<Rightarrow> bool" where
  "is_digit c = (48 \<le> (of_char c :: nat) \<and> (of_char c :: nat) \<le> 57)"

fun digits_value :: "nat \<Rightarrow> string \<Rightarrow> nat" where
  "digits_value acc [] = acc"
| "digits_value acc (c # cs) = digits_value (10 * acc + (of_char c - 48)) cs"

definition is_array_index :: "string \<Rightarrow> bool" where
  "is_array_index k =
     (case k of
        [] \<Rightarrow> False
      | c # cs \<Rightarrow>
          list_all is_digit k \<and> (c = CHR ''0'' \<and> cs = [] \<or> c \<noteq> CHR ''0'') \<and>
          length k \<le> 10 \<and> digits_value 0 k \<le> 4294967294)"

definition own_entries :: "'a js_object \<Rightarrow> (string \<times> 'a) list" where
  "own_entries obj =
     sort_key (\<lambda>p. digits_value 0 (fst p)) (filter (\<lambda>p. is_array_index (fst p)) obj) @
     filter (\<lambda>p. \<not> is_array_index (fst p)) obj"

definition object_keys :: "'a js_object \<Rightarrow> string list" where
  "object_keys obj = map fst (own_entries obj)"

text \<open>An object literal \<^verbatim>\<open>{k1: v1, k2: v2, ...}\<close>, its properties declared in the order
  written, and the spread \<^verbatim>\<open>{...a, ...b}\<close>, which copies the own properties of \<open>a\<close> and then
  those of \<open>b\<close> into a fresh object.\<close>

definition obj_literal :: "(string \<times> 'a) list \<Rightarrow> 'a js_object" where
  "obj_literal ps = fold (\<lambda>p obj. obj_set obj (fst p) (snd p)) ps []"

definition spread :: "'a js_object \<Rightarrow> 'a js_object \<Rightarrow> 'a js_object" where
  "spread a b =
     fold (\<lambda>p obj. obj_set obj (fst p) (snd p)) (own_entries b)
       (fold (\<lambda>p obj. obj_set obj (fst p) (snd p)) (own_entries a) [])"

text \<open>A dependency map that is left out: destructuring defaults it to \<^verbatim>\<open>{}\<close>, and a spread
  copies nothing from \<^verbatim>\<open>undefined\<close>.\<close>

definition or_empty :: "'a js_object option \<Rightarrow> 'a js_object" where
  "or_empty obj = (case obj of None \<Rightarrow> [] | Some d \<Rightarrow> d)"

text \<open>A \<^verbatim>\<open>Map\<close> keeps its entries in insertion order; \<^verbatim>\<open>set\<close> on a key that is present
  replaces the value in place.\<close>

type_synonym ('k, 'a) js_map = "('k \<times> 'a) list"

fun Map_set :: "('k, 'a) js_map \<Rightarrow> 'k \<Rightarrow> 'a \<Rightarrow> ('k, 'a) js_map" where
  "Map_set [] k v = [(k, v)]"
| "Map_set ((k', v') # ps) k v = (if k' = k then (k, v) # ps else (k', v') # Map_set ps k v)"

section \<open>The data model of the registry\<close>

text \<open>
  The messages of \<^verbatim>\<open>internal/feature-service-registry-messages\<close>: each message is kept as
  the name of the function that formats it, applied to the arguments of the call.
\<close>

datatype message =
    featureServiceAlreadyRegistered string string
  | featureServiceVersionInvalid string string
  | featureServiceSuccessfullyRegistered string string
  | featureServicesAlreadyBound string
  | featureServiceSuccessfullyBound string string
  | featureServicesAlreadyUnbound string
  | featureServiceSuccessfullyUnbound string string
  | featureServiceCouldNotBeUnbound string string
  | featureServiceDependencyVersionInvalid bool string string
  | featureServiceNotRegistered bool string string
  | featureServiceUnsupported bool string string string "string list"

text \<open>What an operation throws: \<^verbatim>\<open>new Error(message)\<close> of the registry itself, whatever
  value a callback of the caller (or the dependency sort) threw, or the \<^verbatim>\<open>TypeError\<close> that
  the engine throws when a value that is not a function is called.\<close>

datatype 'x error = Error message | Thrown 'x | TypeError

datatype 'x console_entry = Info message | Warn message | ErrorLog message 'x

text \<open>The invocations of the caller's callbacks, recorded in order: \<open>create\<close> of a provider,
  the version function of a provider (with the version key and the consumer it is called
  for), and the \<open>unbind\<close> of a binding.\<close>

datatype invocation =
    CreateCalled string
  | VersionCalled string string string
  | UnbindCalled string string

type_synonym FeatureServiceConsumerDependencies = "string option js_object"

record FeatureServiceConsumerDefinition =
  consumer_id :: string
  dependencies :: "FeatureServiceConsumerDependencies option"
  optionalDependencies :: "FeatureServiceConsumerDependencies option"

text \<open>A callback of the caller runs on the caller's own state \<open>'w\<close>: it returns normally or
  throws, and leaves a new state either way.\<close>

record ('fs, 'x, 'w) FeatureServiceBinding =
  featureService :: 'fs
  unbind :: "('w \<Rightarrow> 'x option \<times> 'w) option"

type_synonym ('fs, 'x, 'w) FeatureServiceBinder =
  "string \<Rightarrow> 'w \<Rightarrow> ('x + ('fs, 'x, 'w) FeatureServiceBinding) \<times> 'w"

type_synonym ('fs, 'x, 'w) SharedFeatureService =
  "('fs, 'x, 'w) FeatureServiceBinder option js_object"

record ('fs, 'c) FeatureServiceEnvironment =
  config :: "'c option"
  env_featureServices :: "'fs js_object"

record ('fs, 'x, 'c, 'w) FeatureServiceProviderDefinition = FeatureServiceConsumerDefinition +
  create :: "('fs, 'c) FeatureServiceEnvironment \<Rightarrow> 'w \<Rightarrow>
             ('x + ('fs, 'x, 'w) SharedFeatureService) \<times> 'w"

text \<open>The \<open>unbind\<close> closure that \<open>bindFeatureServices\<close> returns captures the consumer's uid,
  its bindings and a flag \<open>unbound\<close> of its own. The flag lives in the state
  (\<open>unbound\<close> below holds the closures whose flag is set); the closure is its number and the
  two values it captured.\<close>

record ('fs, 'x, 'w) unbind_closure =
  closure_id :: nat
  closure_consumerUid :: string
  closure_bindings :: "(string, ('fs, 'x, 'w) FeatureServiceBinding) js_map"

record ('fs, 'x, 'w) FeatureServicesBinding =
  featureServices :: "'fs js_object"
  unbind_handle :: "('fs, 'x, 'w) unbind_closure"

text \<open>The state: the two private fields of the registry, its options, the console, the
  flags of the closures created so far, the caller's state and the invocations of the
  caller's callbacks.\<close>

record ('fs, 'x, 'c, 'w) registry =
  sharedFeatureServices :: "string \<rightharpoonup> ('fs, 'x, 'w) SharedFeatureService"
  consumerUids :: "string set"
  configs :: "(string \<rightharpoonup> 'c) option"
  console :: "'x console_entry list"
  unbound :: "nat set"
  closures :: nat
  world :: 'w
  invocations :: "invocation list"

type_synonym DependencyGraph = "(string, FeatureServiceConsumerDependencies) js_map"

text \<open>The functions the registry imports: \<open>coerce\<close> and \<open>satisfies\<close> of the semver
  package, \<open>createUid\<close> and \<open>toposortDependencies\<close>. They are parameters of the model;
  \<open>satisfies\<close> is given the result of \<open>coerce\<close> as it is (the source passes it on with a
  non-null assertion), and \<open>toposortDependencies\<close> returns the order or throws.\<close>

record ('v, 'x) externals =
  coerce :: "string \<Rightarrow> 'v option"
  satisfies :: "'v option \<Rightarrow> string \<Rightarrow> bool"
  createUid :: "string \<Rightarrow> string option \<Rightarrow> string"
  toposortDependencies :: "DependencyGraph \<Rightarrow> 'x + string list"

section \<open>Binding\<close>

text \<open>The method call \<^verbatim>\<open>dependencies.hasOwnProperty(providerId)\<close> of \<open>bindFeatureServices\<close>.
  The method is looked up on the dependency map itself, so an own property of the map that
  is named \<^verbatim>\<open>hasOwnProperty\<close> shadows \<^verbatim>\<open>Object.prototype.hasOwnProperty\<close>. The values of a
  dependency map are strings or \<^verbatim>\<open>undefined\<close>: calling one throws a \<^verbatim>\<open>TypeError\<close>. Without
  such a property the call is the test for an own property (a dependency map is an
  ordinary object: it inherits the method from \<^verbatim>\<open>Object.prototype\<close>).\<close>

definition call_hasOwnProperty :: "'a js_object \<Rightarrow> string \<Rightarrow> 'x error + bool" where
  "call_hasOwnProperty obj k =
     (if hasOwnProperty obj ''hasOwnProperty'' then Inl TypeError
      else Inr (hasOwnProperty obj k))"

text \<open>Appending to the console and to the record of invocations.\<close>

definition console_log :: "'x console_entry \<Rightarrow> ('fs, 'x, 'c, 'w) registry \<Rightarrow> ('fs, 'x, 'c, 'w) registry" where
  "console_log e s = s\<lparr>console := console s @ [e]\<rparr>"

definition invoked :: "invocation \<Rightarrow> 'w \<Rightarrow> ('fs, 'x, 'c, 'w) registry \<Rightarrow> ('fs, 'x, 'c, 'w) registry" where
  "invoked i w s = s\<lparr>world := w, invocations := invocations s @ [i]\<rparr>"

text \<open>\<^verbatim>\<open>supportedVersions.find(...)\<close> of \<open>bindFeatureService\<close>.\<close>

definition find_version :: "('v, 'x) externals \<Rightarrow> string list \<Rightarrow> string \<Rightarrow> string option" where
  "find_version E supportedVersions requiredVersion =
     List.find (\<lambda>supportedVersion. satisfies E (coerce E supportedVersion) requiredVersion)
       supportedVersions"

text \<open>The three ways in which \<open>bindFeatureService\<close> gives up: an optional dependency is
  logged and skipped, a required one throws.\<close>

definition give_up ::
  "bool \<Rightarrow> message \<Rightarrow> ('fs, 'x, 'c, 'w) registry \<Rightarrow>
   ('x error + ('fs, 'x, 'w) FeatureServiceBinding option) \<times> ('fs, 'x, 'c, 'w) registry" where
  "give_up optional msg s =
     (if optional then (Inr None, console_log (Info msg) s) else (Inl (Error msg), s))"

definition bindFeatureService ::
  "('v, 'x) externals \<Rightarrow> string \<Rightarrow> string \<Rightarrow> string option \<Rightarrow> bool \<Rightarrow>
   ('fs, 'x, 'c, 'w) registry \<Rightarrow>
   ('x error + ('fs, 'x, 'w) FeatureServiceBinding option) \<times> ('fs, 'x, 'c, 'w) registry" where
  "bindFeatureService E providerId consumerUid requiredVersion optional s =
     (case requiredVersion of
        None \<Rightarrow>
          give_up optional (featureServiceDependencyVersionInvalid optional providerId consumerUid) s
      | Some required \<Rightarrow>
          if required = [] then
            give_up optional (featureServiceDependencyVersionInvalid optional providerId consumerUid) s
          else
            (case sharedFeatureServices s providerId of
               None \<Rightarrow> give_up optional (featureServiceNotRegistered optional providerId consumerUid) s
             | Some sharedFeatureService \<Rightarrow>
                 (let supportedVersions = object_keys sharedFeatureService;
                      version = find_version E supportedVersions required;
                      unsupported =
                        give_up optional
                          (featureServiceUnsupported optional providerId consumerUid required
                             supportedVersions) s
                  in case version of
                       None \<Rightarrow> unsupported
                     | Some v \<Rightarrow>
                         (case (if v = [] then None else obj_read sharedFeatureService v) of
                            None \<Rightarrow> unsupported
                          | Some bindFS \<Rightarrow>
                              (case bindFS consumerUid (world s) of
                                 (Inl x, w) \<Rightarrow>
                                   (Inl (Thrown x),
                                    invoked (VersionCalled providerId v consumerUid) w s)
                               | (Inr binding, w) \<Rightarrow>
                                   (Inr (Some binding),
                                    invoked (VersionCalled providerId v consumerUid) w s))))))"

text \<open>The loop of \<open>bindFeatureServices\<close> over \<^verbatim>\<open>Object.keys(allDependencies)\<close>, with the
  \<open>bindings\<close> map and the \<open>featureServices\<close> object it fills. The arguments of the call of
  \<open>bindFeatureService\<close> are evaluated first: when \<^verbatim>\<open>dependencies.hasOwnProperty(providerId)\<close>
  throws, \<open>bindFeatureService\<close> is not called and the error leaves \<open>bindFeatureServices\<close>.\<close>

fun bind_loop ::
  "('v, 'x) externals \<Rightarrow> string \<Rightarrow> FeatureServiceConsumerDependencies \<Rightarrow>
   FeatureServiceConsumerDependencies \<Rightarrow> string list \<Rightarrow>
   (string, ('fs, 'x, 'w) FeatureServiceBinding) js_map \<times> 'fs js_object \<Rightarrow>
   ('fs, 'x, 'c, 'w) registry \<Rightarrow>
   ('x error + (string, ('fs, 'x, 'w) FeatureServiceBinding) js_map \<times> 'fs js_object) \<times>
   ('fs, 'x, 'c, 'w) registry" where
  "bind_loop E consumerUid deps allDependencies [] acc s = (Inr acc, s)"
| "bind_loop E consumerUid deps allDependencies (providerId # rest) acc s =
     (case call_hasOwnProperty deps providerId of
        Inl e \<Rightarrow> (Inl e, s)
      | Inr own \<Rightarrow>
          (case bindFeatureService E providerId consumerUid (obj_read allDependencies providerId)
                  (\<not> own) s of
             (Inl e, s') \<Rightarrow> (Inl e, s')
           | (Inr None, s') \<Rightarrow> bind_loop E consumerUid deps allDependencies rest acc s'
           | (Inr (Some binding), s') \<Rightarrow>
               bind_loop E consumerUid deps allDependencies rest
                 (Map_set (fst acc) providerId binding,
                  obj_set (snd acc) providerId (featureService binding))
                 (console_log (Info (featureServiceSuccessfullyBound providerId consumerUid)) s')))"

definition bindFeatureServices ::
  "('v, 'x) externals \<Rightarrow> 'z FeatureServiceConsumerDefinition_scheme \<Rightarrow> string option \<Rightarrow>
   ('fs, 'x, 'c, 'w) registry \<Rightarrow>
   ('x error + ('fs, 'x, 'w) FeatureServicesBinding) \<times> ('fs, 'x, 'c, 'w) registry" where
  "bindFeatureServices E consumerDefinition consumerIdSpecifier s =
     (let consumerId = consumer_id consumerDefinition;
          deps = or_empty (dependencies consumerDefinition);
          optionalDeps = or_empty (optionalDependencies consumerDefinition);
          consumerUid = createUid E consumerId consumerIdSpecifier
      in if consumerUid \<in> consumerUids s then
           (Inl (Error (featureServicesAlreadyBound consumerUid)), s)
         else
           (let allDependencies = spread optionalDeps deps
            in case bind_loop E consumerUid deps allDependencies (object_keys allDependencies)
                      ([], []) s of
                 (Inl e, s') \<Rightarrow> (Inl e, s')
               | (Inr acc, s') \<Rightarrow>
                   (Inr \<lparr>featureServices = snd acc,
                         unbind_handle =
                           \<lparr>closure_id = closures s', closure_consumerUid = consumerUid,
                            closure_bindings = fst acc\<rparr>\<rparr>,
                    s'\<lparr>consumerUids := insert consumerUid (consumerUids s'),
                       closures := Suc (closures s')\<rparr>)))"

section \<open>Unbinding\<close>

text \<open>The body of the \<^verbatim>\<open>try\<close> block for one binding, with its \<^verbatim>\<open>catch\<close>.\<close>

definition unbind_one ::
  "string \<Rightarrow> string \<Rightarrow> ('fs, 'x, 'w) FeatureServiceBinding \<Rightarrow> ('fs, 'x, 'c, 'w) registry \<Rightarrow>
   ('fs, 'x, 'c, 'w) registry" where
  "unbind_one consumerUid providerId binding s =
     (case unbind binding of
        None \<Rightarrow> console_log (Info (featureServiceSuccessfullyUnbound providerId consumerUid)) s
      | Some f \<Rightarrow>
          (case f (world s) of
             (None, w) \<Rightarrow>
               console_log (Info (featureServiceSuccessfullyUnbound providerId consumerUid))
                 (invoked (UnbindCalled providerId consumerUid) w s)
           | (Some err, w) \<Rightarrow>
               console_log (ErrorLog (featureServiceCouldNotBeUnbound providerId consumerUid) err)
                 (invoked (UnbindCalled providerId consumerUid) w s)))"

fun unbind_loop ::
  "string \<Rightarrow> (string, ('fs, 'x, 'w) FeatureServiceBinding) js_map \<Rightarrow>
   ('fs, 'x, 'c, 'w) registry \<Rightarrow> ('fs, 'x, 'c, 'w) registry" where
  "unbind_loop consumerUid [] s = s"
| "unbind_loop consumerUid (entry # rest) s =
     unbind_loop consumerUid rest (unbind_one consumerUid (fst entry) (snd entry) s)"

definition call_unbind ::
  "('fs, 'x, 'w) unbind_closure \<Rightarrow> ('fs, 'x, 'c, 'w) registry \<Rightarrow>
   ('x error + unit) \<times> ('fs, 'x, 'c, 'w) registry" where
  "call_unbind h s =
     (if closure_id h \<in> unbound s then
        (Inl (Error (featureServicesAlreadyUnbound (closure_consumerUid h))), s)
      else
        (Inr (),
         unbind_loop (closure_consumerUid h) (closure_bindings h)
           (s\<lparr>unbound := insert (closure_id h) (unbound s),
              consumerUids := consumerUids s - {closure_consumerUid h}\<rparr>)))"

section \<open>Registration\<close>

definition createDependencyGraph ::
  "('fs, 'x, 'c, 'w) FeatureServiceProviderDefinition list \<Rightarrow> DependencyGraph" where
  "createDependencyGraph definitions =
     fold (\<lambda>definition graph.
             Map_set graph (consumer_id definition)
               (spread (or_empty (dependencies definition))
                       (or_empty (optionalDependencies definition))))
       definitions []"

definition createProviderDefinitionById ::
  "('fs, 'x, 'c, 'w) FeatureServiceProviderDefinition list \<Rightarrow>
   (string \<rightharpoonup> ('fs, 'x, 'c, 'w) FeatureServiceProviderDefinition)" where
  "createProviderDefinitionById definitions =
     fold (\<lambda>definition byId. byId(consumer_id definition \<mapsto> definition)) definitions Map.empty"

text \<open>One round of the loop of \<open>registerFeatureServices\<close>.\<close>

definition register_one ::
  "('v, 'x) externals \<Rightarrow>
   (string \<rightharpoonup> ('fs, 'x, 'c, 'w) FeatureServiceProviderDefinition) \<Rightarrow> string \<Rightarrow> string \<Rightarrow>
   ('fs, 'x, 'c, 'w) registry \<Rightarrow> ('x error + unit) \<times> ('fs, 'x, 'c, 'w) registry" where
  "register_one E providerDefinitionsById consumerId providerId s =
     (case sharedFeatureServices s providerId of
        Some registered \<Rightarrow>
          (case providerDefinitionsById providerId of
             Some d \<Rightarrow>
               (Inr (), console_log (Warn (featureServiceAlreadyRegistered providerId consumerId)) s)
           | None \<Rightarrow> (Inr (), s))
      | None \<Rightarrow>
          (case providerDefinitionsById providerId of
             None \<Rightarrow> (Inr (), s)
           | Some providerDefinition \<Rightarrow>
               (let cfg = (case configs s of None \<Rightarrow> None | Some c \<Rightarrow> c providerId)
                in case bindFeatureServices E providerDefinition None s of
                     (Inl e, s1) \<Rightarrow> (Inl e, s1)
                   | (Inr bound, s1) \<Rightarrow>
                       (case create providerDefinition
                               \<lparr>config = cfg, env_featureServices = featureServices bound\<rparr>
                               (world s1) of
                          (Inl x, w) \<Rightarrow> (Inl (Thrown x), invoked (CreateCalled providerId) w s1)
                        | (Inr sharedFeatureService, w) \<Rightarrow>
                            (let s2 = invoked (CreateCalled providerId) w s1
                             in if list_all (\<lambda>version. coerce E version \<noteq> None)
                                     (object_keys sharedFeatureService)
                                then
                                  (Inr (),
                                   console_log
                                     (Info (featureServiceSuccessfullyRegistered providerId consumerId))
                                     (s2\<lparr>sharedFeatureServices :=
                                           (sharedFeatureServices s2)(providerId \<mapsto> sharedFeatureService)\<rparr>))
                                else
                                  (Inl (Error (featureServiceVersionInvalid providerId consumerId)),
                                   s2))))))"

fun register_loop ::
  "('v, 'x) externals \<Rightarrow>
   (string \<rightharpoonup> ('fs, 'x, 'c, 'w) FeatureServiceProviderDefinition) \<Rightarrow> string \<Rightarrow> string list \<Rightarrow>
   ('fs, 'x, 'c, 'w) registry \<Rightarrow> ('x error + unit) \<times> ('fs, 'x, 'c, 'w) registry" where
  "register_loop E byId consumerId [] s = (Inr (), s)"
| "register_loop E byId consumerId (providerId # rest) s =
     (case register_one E byId consumerId providerId s of
        (Inl e, s') \<Rightarrow> (Inl e, s')
      | (Inr u, s') \<Rightarrow> register_loop E byId consumerId rest s')"

definition registerFeatureServices ::
  "('v, 'x) externals \<Rightarrow> ('fs, 'x, 'c, 'w) FeatureServiceProviderDefinition list \<Rightarrow> string \<Rightarrow>
   ('fs, 'x, 'c, 'w) registry \<Rightarrow> ('x error + unit) \<times> ('fs, 'x, 'c, 'w) registry" where
  "registerFeatureServices E providerDefinitions consumerId s =
     (let providerDefinitionsById = createProviderDefinitionById providerDefinitions;
          dependencyGraph = createDependencyGraph providerDefinitions
      in case toposortDependencies E dependencyGraph of
           Inl x \<Rightarrow> (Inl (Thrown x), s)
         | Inr order \<Rightarrow> register_loop E providerDefinitionsById consumerId order s)"

text \<open>A registry as its constructor leaves it.\<close>

definition new_registry :: "(string \<rightharpoonup> 'c) option \<Rightarrow> 'w \<Rightarrow> ('fs, 'x, 'c, 'w) registry" where
  "new_registry cfgs w =
     \<lparr>sharedFeatureServices = Map.empty, consumerUids = {}, configs = cfgs, console = [],
      unbound = {}, closures = 0, world = w, invocations = []\<rparr>"

section \<open>Clients of the registry\<close>

text \<open>
  A client calls the two public operations and the \<open>unbind\<close> closures it was handed, in any
  order, and goes on after an operation has thrown. It holds the closures that its calls
  of \<open>bindFeatureServices\<close> returned, in the order it got them, and can call no other.
\<close>

datatype ('fs, 'x, 'c, 'w) client_call =
    Register "('fs, 'x, 'c, 'w) FeatureServiceProviderDefinition list" string
  | Bind FeatureServiceConsumerDefinition "string option"
  | Unbind nat

fun client_step ::
  "('v, 'x) externals \<Rightarrow> ('fs, 'x, 'c, 'w) client_call \<Rightarrow>
   ('fs, 'x, 'c, 'w) registry \<times> ('fs, 'x, 'w) unbind_closure list \<Rightarrow>
   ('fs, 'x, 'c, 'w) registry \<times> ('fs, 'x, 'w) unbind_closure list" where
  "client_step E (Register providerDefinitions consumerId) (s, held) =
     (snd (registerFeatureServices E providerDefinitions consumerId s), held)"
| "client_step E (Bind consumerDefinition consumerIdSpecifier) (s, held) =
     (case bindFeatureServices E consumerDefinition consumerIdSpecifier s of
        (Inl e, s') \<Rightarrow> (s', held)
      | (Inr bound, s') \<Rightarrow> (s', held @ [unbind_handle bound]))"
| "client_step E (Unbind i) (s, held) =
     (if i < length held then (snd (call_unbind (held ! i) s), held) else (s, held))"

definition client_run ::
  "('v, 'x) externals \<Rightarrow> ('fs, 'x, 'c, 'w) client_call list \<Rightarrow>
   ('fs, 'x, 'c, 'w) registry \<times> ('fs, 'x, 'w) unbind_closure list \<Rightarrow>
   ('fs, 'x, 'c, 'w) registry \<times> ('fs, 'x, 'w) unbind_closure list" where
  "client_run E calls st = fold (client_step E) calls st"

text \<open>What holds of the closures a client holds: each was created, and one whose flag is
  not set belongs to an active uid and is the only such closure for that uid.\<close>

definition held_ok ::
  "('fs, 'x, 'c, 'w) registry \<Rightarrow> ('fs, 'x, 'w) unbind_closure list \<Rightarrow> bool" where
  "held_ok s held =
     (\<forall>h \<in> set held.
        closure_id h < closures s \<and>
        (closure_id h \<notin> unbound s \<longrightarrow>
           closure_consumerUid h \<in> consumerUids s \<and>
           (\<forall>h' \<in> set held.
              closure_id h' \<notin> unbound s \<and> closure_consumerUid h' = closure_consumerUid h \<longrightarrow>
              closure_id h' = closure_id h)))"

text \<open>Only closures that were created have their flag set.\<close>

definition closures_ok :: "('fs, 'x, 'c, 'w) registry \<Rightarrow> bool" where
  "closures_ok s = (\<forall>i \<in> unbound s. i < closures s)"

text \<open>A uid is pinned when it is active and no closure that the client holds can release
  it: those for this uid have their flag set.\<close>

definition pinned ::
  "string \<Rightarrow> ('fs, 'x, 'c, 'w) registry \<Rightarrow> ('fs, 'x, 'w) unbind_closure list \<Rightarrow> bool" where
  "pinned u s held =
     (u \<in> consumerUids s \<and>
      (\<forall>h \<in> set held. closure_consumerUid h = u \<longrightarrow> closure_id h \<in> unbound s))"

text \<open>Reading the record of invocations.\<close>

fun is_version_call :: "invocation \<Rightarrow> bool" where
  "is_version_call (VersionCalled providerId v consumerUid) = True"
| "is_version_call i = False"

fun is_unbind_call :: "invocation \<Rightarrow> bool" where
  "is_unbind_call (UnbindCalled providerId consumerUid) = True"
| "is_unbind_call i = False"






text \<open>The version that section 4.2 of the specification selects when the candidates are
  taken in the order in which the provider declared them: the first declared key whose
  coerced version satisfies the range.\<close>

definition declared_first_match ::
  "('v, 'x) externals \<Rightarrow> (string \<times> 'a) list \<Rightarrow> string \<Rightarrow> string option" where
  "declared_first_match E declared required =
     List.find (\<lambda>v. satisfies E (coerce E v) required) (map fst declared)"

section \<open>The render orchestrator\<close>

text \<open>
  Modelled from the spec: the implementation of \<open>renderUntilCompleted\<close> and \<open>rerenderAfter\<close>
  (the source of the async-ssr-manager package) is not among the sources, only its test
  is. The definitions of this section follow section 4.5 of the specification, with time
  counted in milliseconds since the call of \<open>renderUntilCompleted\<close>; a render pass takes no
  time.

  A promise handed to \<open>rerenderAfter\<close> settles some milliseconds after it was handed over,
  or never, and it is fulfilled or rejects with an error. The render function runs on a
  state of its own; one invocation returns the output or throws, and leaves the promises
  that the participants handed to \<open>rerenderAfter\<close> during the invocation.
\<close>

record 'e settle_promise =
  settles_after :: "nat option"
  rejects_with :: "'e option"

type_synonym ('st, 'out, 'e) render_function =
  "'st \<Rightarrow> ('e + 'out) \<times> 'e settle_promise list \<times> 'st"

text \<open>
  Modelled from the spec: waiting for the pending set of a pass, "conceptually all-of",
  "fail-fast". The wait ends with the first rejection, if a promise rejects, and otherwise
  when the last promise is fulfilled, if all of them settle.
\<close>

datatype 'e settled = AllSettled nat | Failed nat 'e | NeverSettles

fun earliest_failure :: "'e settle_promise list \<Rightarrow> (nat \<times> 'e) option" where
  "earliest_failure [] = None"
| "earliest_failure (p # ps) =
     (case (settles_after p, rejects_with p) of
        (Some d, Some e) \<Rightarrow>
          (case earliest_failure ps of
             None \<Rightarrow> Some (d, e)
           | Some later \<Rightarrow> if fst later < d then Some later else Some (d, e))
      | other \<Rightarrow> earliest_failure ps)"

fun all_settled_after :: "'e settle_promise list \<Rightarrow> nat option" where
  "all_settled_after [] = Some 0"
| "all_settled_after (p # ps) =
     (case (settles_after p, all_settled_after ps) of
        (Some d, Some m) \<Rightarrow> Some (max d m)
      | other \<Rightarrow> None)"

definition await_all :: "'e settle_promise list \<Rightarrow> 'e settled" where
  "await_all pending =
     (case earliest_failure pending of
        Some failure \<Rightarrow> Failed (fst failure) (snd failure)
      | None \<Rightarrow>
          (case all_settled_after pending of
             Some d \<Rightarrow> AllSettled d
           | None \<Rightarrow> NeverSettles))"

text \<open>
  Modelled from the spec: how the returned promise ends. \<open>RenderingTimeout\<close> is the
  timeout-specific error, with the configured duration (the test expects the message
  \<^verbatim>\<open>Got rendering timeout after 5 ms.\<close>); \<open>Unsettled\<close> is a returned promise that never
  settles, which is what remains when no timeout is configured and a pending promise
  never settles.
\<close>

datatype ('out, 'e) render_outcome =
    Resolved 'out
  | Rejected 'e
  | RenderingTimeout nat
  | Unsettled

record ('out, 'e) rendering =
  outcome :: "('out, 'e) render_outcome"
  invocations_of_render :: nat
  warned :: bool

definition in_time :: "nat option \<Rightarrow> nat \<Rightarrow> bool" where
  "in_time deadline t = (case deadline of None \<Rightarrow> True | Some limit \<Rightarrow> t \<le> limit)"

definition out_of_time :: "nat option \<Rightarrow> nat \<Rightarrow> (('out, 'e) render_outcome \<times> nat) option" where
  "out_of_time deadline passes =
     (case deadline of
        None \<Rightarrow> Some (Unsettled, passes)
      | Some limit \<Rightarrow> Some (RenderingTimeout limit, passes))"

text \<open>
  Modelled from the spec: the state machine \<open>Rendering\<close>, \<open>Settling\<close>, \<open>Done\<close>, \<open>Failed\<close>. The
  passes are counted; \<open>elapsed\<close> is the time at which the pass starts, and what would
  happen after the deadline does not happen. The loop need not end (every pass may hand
  over a promise), so it runs on fuel, and \<open>None\<close> says that the fuel did not suffice.
  Since a pass takes no time, a run each of whose waits ends at once goes through pass
  after pass at one instant, before any deadline: no fuel suffices for it.
\<close>

fun render_loop ::
  "nat \<Rightarrow> ('st, 'out, 'e) render_function \<Rightarrow> nat option \<Rightarrow> nat \<Rightarrow> nat \<Rightarrow> 'st \<Rightarrow>
   (('out, 'e) render_outcome \<times> nat) option" where
  "render_loop 0 render deadline elapsed passes st = None"
| "render_loop (Suc fuel) render deadline elapsed passes st =
     (case render st of
        (Inl err, pending, st') \<Rightarrow> Some (Rejected err, Suc passes)
      | (Inr out, pending, st') \<Rightarrow>
          if pending = [] then Some (Resolved out, Suc passes)
          else
            (case await_all pending of
               NeverSettles \<Rightarrow> out_of_time deadline (Suc passes)
             | Failed d err \<Rightarrow>
                 if in_time deadline (elapsed + d) then Some (Rejected err, Suc passes)
                 else out_of_time deadline (Suc passes)
             | AllSettled d \<Rightarrow>
                 if in_time deadline (elapsed + d)
                 then render_loop fuel render deadline (elapsed + d) (Suc passes) st'
                 else out_of_time deadline (Suc passes)))"

text \<open>
  Modelled from the spec: \<open>renderUntilCompleted\<close>. One deadline for the whole operation,
  set only when a positive timeout is configured; a warning when none is configured.
\<close>

definition renderUntilCompleted ::
  "nat \<Rightarrow> ('st, 'out, 'e) render_function \<Rightarrow> nat option \<Rightarrow> 'st \<Rightarrow> ('out, 'e) rendering option" where
  "renderUntilCompleted fuel render timeout st =
     (let deadline = (case timeout of None \<Rightarrow> None | Some t \<Rightarrow> if 0 < t then Some t else None)
      in case render_loop fuel render deadline 0 0 st of
           None \<Rightarrow> None
         | Some ended \<Rightarrow>
             Some \<lparr>outcome = fst ended, invocations_of_render = snd ended,
                   warned = (timeout = None)\<rparr>)"

text \<open>
  Modelled from the spec: a run of passes each of which is followed by a wait that
  succeeds. \<open>settled_passes render st waits = Some st'\<close> says that, begun in the state \<open>st\<close>,
  as many invocations of the render function as \<open>waits\<close> has entries follow one another,
  that each of them returns an output and hands over a pending set that is not empty, that
  no promise of a set rejects and that the promises of the set of an invocation are all
  fulfilled as many milliseconds after the invocation as the entry of \<open>waits\<close> for it
  says, not earlier; \<open>st'\<close> is the state that the last of them leaves.
\<close>

fun settled_passes :: "('st, 'out, 'e) render_function \<Rightarrow> 'st \<Rightarrow> nat list \<Rightarrow> 'st option" where
  "settled_passes render st [] = Some st"
| "settled_passes render st (d # waits) =
     (case render st of
        (Inl err, pending, st') \<Rightarrow> None
      | (Inr out, pending, st') \<Rightarrow>
          if pending \<noteq> [] \<and> await_all pending = AllSettled d
          then settled_passes render st' waits
          else None)"

text \<open>A promise that is already resolved.\<close>

definition resolved :: "'e settle_promise" where
  "resolved = \<lparr>settles_after = Some 0, rejects_with = None\<rparr>"

section \<open>An instance of the imported functions\<close>

text \<open>
  To run the registry on concrete inputs the imported functions need values. The instance
  below covers what the examples use and no more: versions written as one to three numbers
  separated by dots, ranges written as caret ranges joined by \<^verbatim>\<open>||\<close> (\<^verbatim>\<open>^1.0 || ^2.0\<close>), the
  uid of a consumer as its id, followed by a colon and the specifier when one is given, and
  a dependency sort that emits a node once all its dependencies inside the graph have been
  emitted, and throws when no node is ready. Every general theorem below holds for any
  functions in their place.
\<close>

type_synonym version = "nat \<times> nat \<times> nat"

fun split_at :: "char \<Rightarrow> string \<Rightarrow> string \<Rightarrow> string list" where
  "split_at sep cur [] = [rev cur]"
| "split_at sep cur (c # cs) =
     (if c = sep then rev cur # split_at sep [] cs else split_at sep (c # cur) cs)"

definition parse_number :: "string \<Rightarrow> nat option" where
  "parse_number ds = (if ds \<noteq> [] \<and> list_all is_digit ds then Some (digits_value 0 ds) else None)"

definition parse_partial :: "string \<Rightarrow> nat list option" where
  "parse_partial str =
     (let parts = map parse_number (split_at CHR ''.'' [] str)
      in if list_all (\<lambda>p. p \<noteq> None) parts \<and> length parts \<le> 3
         then Some (map the parts) else None)"

definition plain_coerce :: "string \<Rightarrow> version option" where
  "plain_coerce str =
     (case parse_partial str of
        Some [major] \<Rightarrow> Some (major, 0, 0)
      | Some [major, minor] \<Rightarrow> Some (major, minor, 0)
      | Some [major, minor, patch] \<Rightarrow> Some (major, minor, patch)
      | _ \<Rightarrow> None)"

fun caret_allows :: "nat list \<Rightarrow> version \<Rightarrow> bool" where
  "caret_allows [major] (a, b, c) = (a = major)"
| "caret_allows [major, minor] (a, b, c) =
     (if major = 0 then a = 0 \<and> b = minor else a = major \<and> minor \<le> b)"
| "caret_allows [major, minor, patch] (a, b, c) =
     (if major = 0 then
        (if minor = 0 then a = 0 \<and> b = 0 \<and> c = patch else a = 0 \<and> b = minor \<and> patch \<le> c)
      else a = major \<and> (minor < b \<or> minor = b \<and> patch \<le> c))"
| "caret_allows ns v = False"

definition comparator_allows :: "string \<Rightarrow> version \<Rightarrow> bool" where
  "comparator_allows str v =
     (case filter (\<lambda>c. c \<noteq> CHR '' '') str of
        c # rest \<Rightarrow>
          (if c = CHR ''^'' then
             (case parse_partial rest of Some ns \<Rightarrow> caret_allows ns v | None \<Rightarrow> False)
           else False)
      | [] \<Rightarrow> False)"

definition caret_satisfies :: "version option \<Rightarrow> string \<Rightarrow> bool" where
  "caret_satisfies actual required =
     (case actual of
        None \<Rightarrow> False
      | Some v \<Rightarrow>
          list_ex (\<lambda>str. comparator_allows str v)
            (filter (\<lambda>str. str \<noteq> []) (split_at CHR ''|'' [] required)))"

definition colon_uid :: "string \<Rightarrow> string option \<Rightarrow> string" where
  "colon_uid consumerId specifier =
     (case specifier of
        None \<Rightarrow> consumerId
      | Some sp \<Rightarrow> if sp = [] then consumerId else consumerId @ '':'' @ sp)"

fun ready_first :: "nat \<Rightarrow> DependencyGraph \<Rightarrow> DependencyGraph \<Rightarrow> string list \<Rightarrow> string + string list" where
  "ready_first fuel graph [] emitted = Inr emitted"
| "ready_first 0 graph (n # ns) emitted = Inl ''Cyclic dependency''"
| "ready_first (Suc fuel) graph (n # ns) emitted =
     (case List.find
             (\<lambda>node. list_all (\<lambda>d. d \<in> set emitted \<or> \<not> hasOwnProperty graph d)
                        (object_keys (snd node)))
             (n # ns) of
        None \<Rightarrow> Inl ''Cyclic dependency''
      | Some node \<Rightarrow>
          ready_first fuel graph (filter (\<lambda>m. fst m \<noteq> fst node) (n # ns)) (emitted @ [fst node]))"

definition ready_sort :: "DependencyGraph \<Rightarrow> string + string list" where
  "ready_sort graph = ready_first (length graph) graph graph []"

definition plain :: "(version, string) externals" where
  "plain = \<lparr>coerce = plain_coerce, satisfies = caret_satisfies, createUid = colon_uid,
            toposortDependencies = ready_sort\<rparr>"

section \<open>Examples\<close>

text \<open>Stubs whose state is the list of the names of the stubs that ran: a teardown that
  appends its name and then throws or returns.\<close>

definition stub_unbind :: "string \<Rightarrow> string option \<Rightarrow> string list \<Rightarrow> string option \<times> string list" where
  "stub_unbind name failure w = (failure, w @ [name])"


definition fresh_registry :: "(string, string, unit, string list) registry" where
  "fresh_registry = new_registry None []"

text \<open>A version function that hands out a service named \<open>name\<close> with a teardown, and a
  provider \<open>svc\<close> that exposes the versions 1.0.0 and 2.0.0, declared in that order.\<close>

definition stub_version :: "string \<Rightarrow> (string, string, string list) FeatureServiceBinder" where
  "stub_version name consumerUid w =
     (Inr \<lparr>featureService = name, unbind = Some (stub_unbind name None)\<rparr>, w @ [name])"

definition svc_versions :: "(string \<times> (string, string, string list) FeatureServiceBinder option) list" where
  "svc_versions =
     [(''1.0.0'', Some (stub_version ''svc 1'')), (''2.0.0'', Some (stub_version ''svc 2''))]"

definition svc :: "(string, string, unit, string list) FeatureServiceProviderDefinition" where
  "svc =
     \<lparr>consumer_id = ''svc'', dependencies = None, optionalDependencies = None,
      create = (\<lambda>env w. (Inr (obj_literal svc_versions), w @ [''create svc'']))\<rparr>"

definition with_svc :: "(string, string, unit, string list) registry" where
  "with_svc = snd (registerFeatureServices plain [svc] ''integrator'' fresh_registry)"

text \<open>A consumer of \<open>svc\<close> in any of the two major versions.\<close>

definition app :: FeatureServiceConsumerDefinition where
  "app =
     \<lparr>consumer_id = ''app'', dependencies = Some (obj_literal [(''svc'', Some ''^1.0 || ^2.0'')]),
      optionalDependencies = None\<rparr>"


definition wants_v3 :: FeatureServiceConsumerDefinition where
  "wants_v3 =
     \<lparr>consumer_id = ''modern'', dependencies = None,
      optionalDependencies = Some (obj_literal [(''svc'', Some ''^3.0'')])\<rparr>"

text \<open>A provider that declares its version 2 before its version 1, under the keys
  \<^verbatim>\<open>'2'\<close> and \<^verbatim>\<open>'1'\<close>, and a consumer that accepts either.\<close>

definition numbered_versions :: "(string \<times> (string, string, string list) FeatureServiceBinder option) list" where
  "numbered_versions =
     [(''2'', Some (stub_version ''numbered 2'')), (''1'', Some (stub_version ''numbered 1''))]"

definition numbered :: "(string, string, unit, string list) FeatureServiceProviderDefinition" where
  "numbered =
     \<lparr>consumer_id = ''numbered'', dependencies = None, optionalDependencies = None,
      create = (\<lambda>env w. (Inr (obj_literal numbered_versions), w @ [''create numbered'']))\<rparr>"

definition with_numbered :: "(string, string, unit, string list) registry" where
  "with_numbered = snd (registerFeatureServices plain [numbered] ''integrator'' fresh_registry)"

definition app_numbered :: FeatureServiceConsumerDefinition where
  "app_numbered =
     \<lparr>consumer_id = ''app'',
      dependencies = Some (obj_literal [(''numbered'', Some ''^1.0 || ^2.0'')]),
      optionalDependencies = None\<rparr>"

text \<open>A consumer that lists \<open>svc\<close> twice: as a required dependency in a version that \<open>svc\<close>
  does not expose, and as an optional one in a version that it does.\<close>

definition both :: FeatureServiceConsumerDefinition where
  "both =
     \<lparr>consumer_id = ''both'', dependencies = Some (obj_literal [(''svc'', Some ''^3.0'')]),
      optionalDependencies = Some (obj_literal [(''svc'', Some ''^1.0'')])\<rparr>"





text \<open>A provider \<open>broken\<close> that depends on \<open>svc\<close> and exposes a key that is no version, and
  a second definition of \<open>svc\<close>, with other versions.\<close>

definition broken :: "(string, string, unit, string list) FeatureServiceProviderDefinition" where
  "broken =
     \<lparr>consumer_id = ''broken'', dependencies = Some (obj_literal [(''svc'', Some ''^1.0'')]),
      optionalDependencies = None,
      create = (\<lambda>env w.
        (Inr (obj_literal [(''1.0.0'', Some (stub_version ''broken 1'')),
                           (''latest'', Some (stub_version ''broken latest''))]),
         w @ [''create broken'']))\<rparr>"

definition svc_again :: "(string, string, unit, string list) FeatureServiceProviderDefinition" where
  "svc_again =
     \<lparr>consumer_id = ''svc'', dependencies = None, optionalDependencies = None,
      create = (\<lambda>env w.
        (Inr (obj_literal [(''3.0.0'', Some (stub_version ''svc 3''))]),
         w @ [''create svc again'']))\<rparr>"

text \<open>Binding \<open>app\<close> once \<open>svc\<close> is registered, the closure this returns, and the registry
  after the closure has been called.\<close>

definition app_bound ::
  "(string error + (string, string, string list) FeatureServicesBinding) \<times>
   (string, string, unit, string list) registry" where
  "app_bound = bindFeatureServices plain app None with_svc"

definition app_unbind :: "(string, string, string list) unbind_closure" where
  "app_unbind = unbind_handle (projr (fst app_bound))"

definition app_unbound :: "(string, string, unit, string list) registry" where
  "app_unbound = snd (call_unbind app_unbind (snd app_bound))"

text \<open>A consumer that has the id of the provider \<open>svc\<close>, and a client that binds and unbinds
  it before \<open>svc\<close> is registered and tries its closure again afterwards.\<close>

definition impostor :: FeatureServiceConsumerDefinition where
  "impostor = \<lparr>consumer_id = ''svc'', dependencies = None, optionalDependencies = None\<rparr>"

definition stale_client ::
  "(string, string, unit, string list) registry \<times> (string, string, string list) unbind_closure list" where
  "stale_client = client_run plain [Bind impostor None, Unbind 0] (fresh_registry, [])"

definition svc_pinned :: "(string, string, unit, string list) registry" where
  "svc_pinned = snd (registerFeatureServices plain [svc] ''integrator'' (fst stale_client))"

definition later_client ::
  "(string, string, unit, string list) registry \<times> (string, string, string list) unbind_closure list" where
  "later_client = client_run plain [Unbind 0, Bind app None] (svc_pinned, snd stale_client)"

text \<open>A consumer whose first required dependency can be bound and whose second cannot.\<close>

definition half :: FeatureServiceConsumerDefinition where
  "half =
     \<lparr>consumer_id = ''half'',
      dependencies = Some (obj_literal [(''svc'', Some ''^1.0''), (''missing'', Some ''^1.0'')]),
      optionalDependencies = None\<rparr>"

text \<open>The render functions of the test of the orchestrator; their state is the number of
  passes so far. In \<open>two_consumers\<close> two consumers each ask for a rerender during the first
  pass; in \<open>never_ready\<close> every pass hands over a promise that never settles; in
  \<open>slow_twice\<close> the first two passes each hand over a promise that takes three
  milliseconds; in \<open>one_stuck\<close> every pass hands over a promise that never settles and,
  after it, one that is already resolved; in \<open>steady\<close> every pass hands over a promise that
  takes two milliseconds.\<close>

definition integrator_only :: "(nat, string, string) render_function" where
  "integrator_only n = (Inr ''testHtml'', [], Suc n)"

definition two_consumers :: "(nat, string, string) render_function" where
  "two_consumers n = (Inr ''testHtml'', if n = 0 then [resolved, resolved] else [], Suc n)"

definition never_ready :: "(nat, string, string) render_function" where
  "never_ready n = (Inr ''testHtml'', [\<lparr>settles_after = None, rejects_with = None\<rparr>], Suc n)"

definition slow_twice :: "(nat, string, string) render_function" where
  "slow_twice n =
     (Inr ''testHtml'',
      if n < 2 then [\<lparr>settles_after = Some 3, rejects_with = None\<rparr>] else [], Suc n)"

definition one_stuck :: "(nat, string, string) render_function" where
  "one_stuck n =
     (Inr ''testHtml'', [\<lparr>settles_after = None, rejects_with = None\<rparr>, resolved], Suc n)"

definition steady :: "(nat, string, string) render_function" where
  "steady n = (Inr ''testHtml'', [\<lparr>settles_after = Some 2, rejects_with = None\<rparr>], Suc n)"

section \<open>What each operation leaves unchanged\<close>

lemma console_log_fields [simp]:
  "sharedFeatureServices (console_log e s) = sharedFeatureServices s"
  "consumerUids (console_log e s) = consumerUids s"
  "configs (console_log e s) = configs s"
  "console (console_log e s) = console s @ [e]"
  "unbound (console_log e s) = unbound s"
  "closures (console_log e s) = closures s"
  "world (console_log e s) = world s"
  "invocations (console_log e s) = invocations s"
  by (simp_all add: console_log_def)

lemma invoked_fields [simp]:
  "sharedFeatureServices (invoked i w s) = sharedFeatureServices s"
  "consumerUids (invoked i w s) = consumerUids s"
  "configs (invoked i w s) = configs s"
  "console (invoked i w s) = console s"
  "unbound (invoked i w s) = unbound s"
  "closures (invoked i w s) = closures s"
  "world (invoked i w s) = w"
  "invocations (invoked i w s) = invocations s @ [i]"
  by (simp_all add: invoked_def)

lemma give_up_required: "give_up False m s = (Inl (Error m), s)"
  by (simp add: give_up_def)

lemma give_up_optional: "give_up True m s = (Inr None, console_log (Info m) s)"
  by (simp add: give_up_def)

lemma call_hasOwnProperty_shadowed:
  "hasOwnProperty obj ''hasOwnProperty'' \<Longrightarrow> call_hasOwnProperty obj k = Inl TypeError"
  by (simp add: call_hasOwnProperty_def)

lemma call_hasOwnProperty_unshadowed:
  "\<not> hasOwnProperty obj ''hasOwnProperty'' \<Longrightarrow>
   call_hasOwnProperty obj k = Inr (hasOwnProperty obj k)"
  by (simp add: call_hasOwnProperty_def)

text \<open>The shapes of what bindFeatureService returns.\<close>

lemma bindFeatureService_cases:
  assumes "bindFeatureService E p uid rv opt s = (r, s')"
  shows "(\<exists>m. \<not> opt \<and> r = Inl (Error m) \<and> s' = s) \<or>
         (\<exists>m. opt \<and> r = Inr None \<and> s' = console_log (Info m) s) \<or>
         (\<exists>v x w. r = Inl (Thrown x) \<and> s' = invoked (VersionCalled p v uid) w s) \<or>
         (\<exists>v b w. r = Inr (Some b) \<and> s' = invoked (VersionCalled p v uid) w s)"
proof (cases opt)
  case True
  with assms show ?thesis
    unfolding bindFeatureService_def Let_def
    by (simp add: give_up_optional split: option.splits if_splits prod.splits sum.splits) blast+
next
  case False
  with assms show ?thesis
    unfolding bindFeatureService_def Let_def
    by (simp add: give_up_required split: option.splits if_splits prod.splits sum.splits) blast+
qed

lemma bindFeatureService_fields:
  assumes "bindFeatureService E p uid rv opt s = (r, s')"
  shows "sharedFeatureServices s' = sharedFeatureServices s"
    and "consumerUids s' = consumerUids s"
    and "configs s' = configs s"
    and "unbound s' = unbound s"
    and "closures s' = closures s"
  using bindFeatureService_cases [OF assms] by auto

lemma bindFeatureService_invocations:
  assumes "bindFeatureService E p uid rv opt s = (r, s')"
  shows "\<exists>new. invocations s' = invocations s @ new \<and> list_all is_version_call new"
  using bindFeatureService_cases [OF assms]
  by (elim disjE exE conjE) (simp, simp, (rule exI [of _ "[VersionCalled p v uid]" for v], simp)+)

lemma bind_loop_fields:
  "bind_loop E uid deps allDeps ks acc s = (r, s') \<Longrightarrow>
     sharedFeatureServices s' = sharedFeatureServices s \<and> consumerUids s' = consumerUids s \<and>
     configs s' = configs s \<and> unbound s' = unbound s \<and> closures s' = closures s"
proof (induction ks arbitrary: acc s)
  case Nil
  then show ?case by simp
next
  case (Cons k ks)
  show ?case
  proof (cases "hasOwnProperty deps ''hasOwnProperty''")
    case True
    with Cons.prems show ?thesis by (simp add: call_hasOwnProperty_shadowed)
  next
    case False
    note own [simp] = call_hasOwnProperty_unshadowed [OF False]
    obtain r1 s1 where step:
      "bindFeatureService E k uid (obj_read allDeps k) (\<not> hasOwnProperty deps k) s = (r1, s1)"
      by (cases "bindFeatureService E k uid (obj_read allDeps k) (\<not> hasOwnProperty deps k) s")
    note f = bindFeatureService_fields [OF step]
    show ?thesis
    proof (cases r1)
      case (Inl e)
      with Cons.prems step f show ?thesis by simp
    next
      case (Inr ob)
      show ?thesis
      proof (cases ob)
        case None
        with Cons.prems step Inr have "bind_loop E uid deps allDeps ks acc s1 = (r, s')" by simp
        from Cons.IH [OF this] f show ?thesis by simp
      next
        case (Some b)
        with Cons.prems step Inr have
          "bind_loop E uid deps allDeps ks
             (Map_set (fst acc) k b, obj_set (snd acc) k (featureService b))
             (console_log (Info (featureServiceSuccessfullyBound k uid)) s1) = (r, s')"
          by simp
        from Cons.IH [OF this] f show ?thesis by simp
      qed
    qed
  qed
qed

lemma bind_loop_invocations:
  "bind_loop E uid deps allDeps ks acc s = (r, s') \<Longrightarrow>
     \<exists>new. invocations s' = invocations s @ new \<and> list_all is_version_call new"
proof (induction ks arbitrary: acc s)
  case Nil
  then show ?case by simp
next
  case (Cons k ks)
  show ?case
  proof (cases "hasOwnProperty deps ''hasOwnProperty''")
    case True
    with Cons.prems show ?thesis by (simp add: call_hasOwnProperty_shadowed)
  next
    case False
    note own [simp] = call_hasOwnProperty_unshadowed [OF False]
    obtain r1 s1 where step:
      "bindFeatureService E k uid (obj_read allDeps k) (\<not> hasOwnProperty deps k) s = (r1, s1)"
      by (cases "bindFeatureService E k uid (obj_read allDeps k) (\<not> hasOwnProperty deps k) s")
    from bindFeatureService_invocations [OF step] obtain n1 where
      n1: "invocations s1 = invocations s @ n1" "list_all is_version_call n1" by blast
    show ?thesis
    proof (cases r1)
      case (Inl e)
      with Cons.prems step n1 show ?thesis by auto
    next
      case (Inr ob)
      show ?thesis
      proof (cases ob)
        case None
        with Cons.prems step Inr have "bind_loop E uid deps allDeps ks acc s1 = (r, s')" by simp
        from Cons.IH [OF this] obtain n2 where
          "invocations s' = invocations s1 @ n2" "list_all is_version_call n2" by blast
        with n1 show ?thesis by (intro exI [of _ "n1 @ n2"]) simp
      next
        case (Some b)
        with Cons.prems step Inr have
          "bind_loop E uid deps allDeps ks
             (Map_set (fst acc) k b, obj_set (snd acc) k (featureService b))
             (console_log (Info (featureServiceSuccessfullyBound k uid)) s1) = (r, s')"
          by simp
        from Cons.IH [OF this] obtain n2 where
          "invocations s' = invocations s1 @ n2" "list_all is_version_call n2" by auto
        with n1 show ?thesis by (intro exI [of _ "n1 @ n2"]) simp
      qed
    qed
  qed
qed

lemma bindFeatureServices_already_bound:
  "createUid E (consumer_id d) spec \<in> consumerUids s \<Longrightarrow>
   bindFeatureServices E d spec s =
     (Inl (Error (featureServicesAlreadyBound (createUid E (consumer_id d) spec))), s)"
  by (simp add: bindFeatureServices_def Let_def)

lemma bindFeatureServices_fresh:
  "createUid E (consumer_id d) spec \<notin> consumerUids s \<Longrightarrow>
   bindFeatureServices E d spec s =
     (case bind_loop E (createUid E (consumer_id d) spec) (or_empty (dependencies d))
             (spread (or_empty (optionalDependencies d)) (or_empty (dependencies d)))
             (object_keys (spread (or_empty (optionalDependencies d)) (or_empty (dependencies d))))
             ([], []) s of
        (Inl e, s') \<Rightarrow> (Inl e, s')
      | (Inr acc, s') \<Rightarrow>
          (Inr \<lparr>featureServices = snd acc,
                unbind_handle =
                  \<lparr>closure_id = closures s',
                   closure_consumerUid = createUid E (consumer_id d) spec,
                   closure_bindings = fst acc\<rparr>\<rparr>,
           s'\<lparr>consumerUids := insert (createUid E (consumer_id d) spec) (consumerUids s'),
              closures := Suc (closures s')\<rparr>))"
  by (simp add: bindFeatureServices_def Let_def)

lemma bindFeatureServices_throws:
  assumes "bindFeatureServices E d spec s = (Inl e, s')"
  shows "sharedFeatureServices s' = sharedFeatureServices s"
    and "consumerUids s' = consumerUids s"
    and "configs s' = configs s"
    and "unbound s' = unbound s"
    and "closures s' = closures s"
    and "\<exists>new. invocations s' = invocations s @ new \<and> list_all is_version_call new"
proof -
  let ?uid = "createUid E (consumer_id d) spec"
  let ?all = "spread (or_empty (optionalDependencies d)) (or_empty (dependencies d))"
  have "sharedFeatureServices s' = sharedFeatureServices s \<and> consumerUids s' = consumerUids s \<and>
        configs s' = configs s \<and> unbound s' = unbound s \<and> closures s' = closures s \<and>
        (\<exists>new. invocations s' = invocations s @ new \<and> list_all is_version_call new)"
  proof (cases "?uid \<in> consumerUids s")
    case True
    from assms bindFeatureServices_already_bound [OF True] show ?thesis by simp
  next
    case False
    obtain r1 s1 where loop:
      "bind_loop E ?uid (or_empty (dependencies d)) ?all (object_keys ?all) ([], []) s = (r1, s1)"
      by (cases "bind_loop E ?uid (or_empty (dependencies d)) ?all (object_keys ?all) ([], []) s")
    from assms bindFeatureServices_fresh [OF False, of] loop have "r1 = Inl e" "s1 = s'"
      by (cases r1; simp)+
    with loop bind_loop_fields [OF loop] bind_loop_invocations [OF loop] show ?thesis by simp
  qed
  then show "sharedFeatureServices s' = sharedFeatureServices s"
    and "consumerUids s' = consumerUids s"
    and "configs s' = configs s"
    and "unbound s' = unbound s"
    and "closures s' = closures s"
    and "\<exists>new. invocations s' = invocations s @ new \<and> list_all is_version_call new"
    by simp_all
qed

lemma bindFeatureServices_returns:
  assumes "bindFeatureServices E d spec s = (Inr b, s')"
  shows "sharedFeatureServices s' = sharedFeatureServices s"
    and "consumerUids s' = insert (createUid E (consumer_id d) spec) (consumerUids s)"
    and "createUid E (consumer_id d) spec \<notin> consumerUids s"
    and "configs s' = configs s"
    and "unbound s' = unbound s"
    and "closures s' = Suc (closures s)"
    and "closure_id (unbind_handle b) = closures s"
    and "closure_consumerUid (unbind_handle b) = createUid E (consumer_id d) spec"
proof -
  let ?uid = "createUid E (consumer_id d) spec"
  let ?all = "spread (or_empty (optionalDependencies d)) (or_empty (dependencies d))"
  have fresh: "?uid \<notin> consumerUids s"
    using assms bindFeatureServices_already_bound [of E d spec s] by auto
  obtain r1 s1 where loop:
    "bind_loop E ?uid (or_empty (dependencies d)) ?all (object_keys ?all) ([], []) s = (r1, s1)"
    by (cases "bind_loop E ?uid (or_empty (dependencies d)) ?all (object_keys ?all) ([], []) s")
  from assms bindFeatureServices_fresh [OF fresh] loop obtain acc where
    r1: "r1 = Inr acc"
    and b: "b = \<lparr>featureServices = snd acc,
                unbind_handle = \<lparr>closure_id = closures s1, closure_consumerUid = ?uid,
                                 closure_bindings = fst acc\<rparr>\<rparr>"
    and s': "s' = s1\<lparr>consumerUids := insert ?uid (consumerUids s1), closures := Suc (closures s1)\<rparr>"
    by (cases r1) auto
  note f = bind_loop_fields [OF loop]
  show "sharedFeatureServices s' = sharedFeatureServices s" using f s' by simp
  show "consumerUids s' = insert ?uid (consumerUids s)" using f s' by simp
  show "?uid \<notin> consumerUids s" by (rule fresh)
  show "configs s' = configs s" using f s' by simp
  show "unbound s' = unbound s" using f s' by simp
  show "closures s' = Suc (closures s)" using f s' by simp
  show "closure_id (unbind_handle b) = closures s" using f b by simp
  show "closure_consumerUid (unbind_handle b) = ?uid" using b by simp
qed


lemma unbind_one_fields [simp]:
  "sharedFeatureServices (unbind_one uid p b s) = sharedFeatureServices s"
  "consumerUids (unbind_one uid p b s) = consumerUids s"
  "configs (unbind_one uid p b s) = configs s"
  "unbound (unbind_one uid p b s) = unbound s"
  "closures (unbind_one uid p b s) = closures s"
  by (simp_all add: unbind_one_def split: option.splits prod.splits)




lemma unbind_loop_fields [simp]:
  "sharedFeatureServices (unbind_loop uid bs s) = sharedFeatureServices s"
  "consumerUids (unbind_loop uid bs s) = consumerUids s"
  "configs (unbind_loop uid bs s) = configs s"
  "unbound (unbind_loop uid bs s) = unbound s"
  "closures (unbind_loop uid bs s) = closures s"
  by (induction bs arbitrary: s; simp)+




lemma call_unbind_first:
  "closure_id h \<notin> unbound s \<Longrightarrow>
   call_unbind h s =
     (Inr (),
      unbind_loop (closure_consumerUid h) (closure_bindings h)
        (s\<lparr>unbound := insert (closure_id h) (unbound s),
           consumerUids := consumerUids s - {closure_consumerUid h}\<rparr>))"
  by (simp add: call_unbind_def)

lemma call_unbind_again:
  "closure_id h \<in> unbound s \<Longrightarrow>
   call_unbind h s = (Inl (Error (featureServicesAlreadyUnbound (closure_consumerUid h))), s)"
  by (simp add: call_unbind_def)

section \<open>The outcomes of binding one dependency\<close>


lemma find_version_first:
  "list_all (\<lambda>v. \<not> satisfies E (coerce E v) required) pre \<Longrightarrow>
   satisfies E (coerce E v) required \<Longrightarrow>
   find_version E (pre @ v # post) required = Some v"
  unfolding find_version_def by (induction pre) simp_all

lemma find_version_some:
  "find_version E vs required = Some v \<Longrightarrow>
   \<exists>pre post. vs = pre @ v # post \<and> satisfies E (coerce E v) required \<and>
     list_all (\<lambda>k. \<not> satisfies E (coerce E k) required) pre"
proof (induction vs)
  case Nil
  then show ?case by (simp add: find_version_def)
next
  case (Cons a vs)
  show ?case
  proof (cases "satisfies E (coerce E a) required")
    case True
    with Cons.prems have "a = v" by (simp add: find_version_def)
    with True show ?thesis by (intro exI [of _ "[]"] exI [of _ vs]) simp
  next
    case False
    with Cons.prems have "find_version E vs required = Some v" by (simp add: find_version_def)
    from Cons.IH [OF this] obtain pre post where
      "vs = pre @ v # post" "satisfies E (coerce E v) required"
      "list_all (\<lambda>k. \<not> satisfies E (coerce E k) required) pre" by blast
    with False show ?thesis by (intro exI [of _ "a # pre"] exI [of _ post]) simp
  qed
qed




lemma bindFeatureService_match:
  "required \<noteq> [] \<Longrightarrow> sharedFeatureServices s p = Some sfs \<Longrightarrow>
   find_version E (object_keys sfs) required = Some v \<Longrightarrow> v \<noteq> [] \<Longrightarrow>
   obj_read sfs v = Some bindFS \<Longrightarrow>
   bindFeatureService E p uid (Some required) opt s =
     (case bindFS uid (world s) of
        (Inl x, w) \<Rightarrow> (Inl (Thrown x), invoked (VersionCalled p v uid) w s)
      | (Inr binding, w) \<Rightarrow> (Inr (Some binding), invoked (VersionCalled p v uid) w s))"
  by (simp add: bindFeatureService_def Let_def)









text \<open>The three ways in which one round of the loop of bindFeatureServices goes on.\<close>

lemma bind_loop_shadowed:
  "hasOwnProperty deps ''hasOwnProperty'' \<Longrightarrow>
   bind_loop E uid deps allDeps (k # ks) acc s = (Inl TypeError, s)"
  by (simp add: call_hasOwnProperty_shadowed)

lemma bind_loop_throw:
  "\<not> hasOwnProperty deps ''hasOwnProperty'' \<Longrightarrow>
   bindFeatureService E k uid (obj_read allDeps k) (\<not> hasOwnProperty deps k) s = (Inl e, s1) \<Longrightarrow>
   bind_loop E uid deps allDeps (k # ks) acc s = (Inl e, s1)"
  by (simp add: call_hasOwnProperty_unshadowed)

lemma bind_loop_skip:
  "\<not> hasOwnProperty deps ''hasOwnProperty'' \<Longrightarrow>
   bindFeatureService E k uid (obj_read allDeps k) (\<not> hasOwnProperty deps k) s = (Inr None, s1) \<Longrightarrow>
   bind_loop E uid deps allDeps (k # ks) acc s = bind_loop E uid deps allDeps ks acc s1"
  by (simp add: call_hasOwnProperty_unshadowed)

lemma bind_loop_bound:
  "\<not> hasOwnProperty deps ''hasOwnProperty'' \<Longrightarrow>
   bindFeatureService E k uid (obj_read allDeps k) (\<not> hasOwnProperty deps k) s = (Inr (Some b), s1) \<Longrightarrow>
   bind_loop E uid deps allDeps (k # ks) acc s =
     bind_loop E uid deps allDeps ks
       (Map_set (fst acc) k b, obj_set (snd acc) k (featureService b))
       (console_log (Info (featureServiceSuccessfullyBound k uid)) s1)"
  by (simp add: call_hasOwnProperty_unshadowed)



section \<open>Unbinding isolates the failures of teardowns\<close>





section \<open>Dependencies that cannot be bound\<close>

text \<open>The definitions that running an example unfolds.\<close>

lemmas run_defs =
  registerFeatureServices_def createProviderDefinitionById_def createDependencyGraph_def
  register_one_def bindFeatureServices_def bindFeatureService_def give_up_def
  find_version_def console_log_def invoked_def new_registry_def
  or_empty_def spread_def obj_literal_def object_keys_def own_entries_def is_array_index_def
  is_digit_def obj_read_def hasOwnProperty_def call_hasOwnProperty_def
  plain_def plain_coerce_def parse_partial_def parse_number_def caret_satisfies_def
  comparator_allows_def colon_uid_def ready_sort_def Let_def









section \<open>The version that is selected\<close>

lemma obj_set_fresh: "k \<notin> fst ` set obj \<Longrightarrow> obj_set obj k v = obj @ [(k, v)]"
  by (induction obj) auto

lemma fold_obj_set_distinct:
  "distinct (map fst ps) \<Longrightarrow> fst ` set acc \<inter> fst ` set ps = {} \<Longrightarrow>
   fold (\<lambda>p obj. obj_set obj (fst p) (snd p)) ps acc = acc @ ps"
proof (induction ps arbitrary: acc)
  case Nil
  then show ?case by simp
next
  case (Cons a ps)
  from Cons.prems(2) have fresh: "fst a \<notin> fst ` set acc" by auto
  have step: "obj_set acc (fst a) (snd a) = acc @ [a]"
    using obj_set_fresh [OF fresh, of "snd a"] by simp
  have disj: "fst ` set (acc @ [a]) \<inter> fst ` set ps = {}"
    using Cons.prems by auto
  from Cons.prems(1) have "distinct (map fst ps)" by simp
  from Cons.IH [OF this disj] step show ?case by simp
qed

lemma obj_literal_distinct: "distinct (map fst ps) \<Longrightarrow> obj_literal ps = ps"
  using fold_obj_set_distinct [of ps "[]"] by (simp add: obj_literal_def)

lemma object_keys_no_index:
  "list_all (\<lambda>k. \<not> is_array_index k) (map fst obj) \<Longrightarrow> object_keys obj = map fst obj"
proof -
  assume a: "list_all (\<lambda>k. \<not> is_array_index k) (map fst obj)"
  then have none: "filter (\<lambda>p. is_array_index (fst p)) obj = []"
    by (simp add: list_all_iff filter_empty_conv)
  from a have all: "filter (\<lambda>p. \<not> is_array_index (fst p)) obj = obj"
    by (simp add: list_all_iff filter_id_conv)
  show ?thesis by (simp add: object_keys_def own_entries_def none all)
qed

text \<open>
  Claim C1, as amended. \<open>bindFeatureService\<close> selects the first key of the provider, in the
  order in which \<^verbatim>\<open>Object.keys\<close> lists the keys of the shared service, whose coerced version
  satisfies the range, and never a later one; when that key is not the empty string and
  holds a function, that function is called for the consumer. \<^verbatim>\<open>Object.keys\<close> lists the
  keys in the order in which the provider declared them when none of them is an array
  index, so that the selected version is then the first declared match; for the
  candidates 1.0.0 and 2.0.0, declared in that order, and the range \<^verbatim>\<open>^1.0 || ^2.0\<close>, it is
  1.0.0 for any semver functions for which 1.0.0 satisfies that range.
\<close>

theorem first_match_in_key_order:
  "(object_keys sfs = pre @ v # post \<and>
    list_all (\<lambda>k. \<not> satisfies E (coerce E k) required) pre \<and>
    satisfies E (coerce E v) required \<longrightarrow>
      find_version E (object_keys sfs) required = Some v) \<and>
   (find_version E (object_keys sfs) required = Some v \<longrightarrow>
      (\<exists>pre post. object_keys sfs = pre @ v # post \<and> satisfies E (coerce E v) required \<and>
         list_all (\<lambda>k. \<not> satisfies E (coerce E k) required) pre)) \<and>
   (required \<noteq> [] \<and> sharedFeatureServices s p = Some sfs \<and>
    find_version E (object_keys sfs) required = Some v \<and> v \<noteq> [] \<and>
    obj_read sfs v = Some bindFS \<longrightarrow>
      bindFeatureService E p uid (Some required) opt s =
        (case bindFS uid (world s) of
           (Inl x, w) \<Rightarrow> (Inl (Thrown x), invoked (VersionCalled p v uid) w s)
         | (Inr binding, w) \<Rightarrow> (Inr (Some binding), invoked (VersionCalled p v uid) w s))) \<and>
   (distinct (map fst declared) \<and> list_all (\<lambda>k. \<not> is_array_index k) (map fst declared) \<longrightarrow>
      object_keys (obj_literal declared) = map fst declared \<and>
      find_version E (object_keys (obj_literal declared)) required =
        declared_first_match E declared required) \<and>
   (satisfies E (coerce E ''1.0.0'') ''^1.0 || ^2.0'' \<longrightarrow>
      find_version E (object_keys (obj_literal [(''1.0.0'', a), (''2.0.0'', b)])) ''^1.0 || ^2.0'' =
        Some ''1.0.0'')"
proof (intro conjI impI)
  assume "object_keys sfs = pre @ v # post \<and>
    list_all (\<lambda>k. \<not> satisfies E (coerce E k) required) pre \<and>
    satisfies E (coerce E v) required"
  then show "find_version E (object_keys sfs) required = Some v"
    using find_version_first [of E required pre v post] by simp
next
  assume "find_version E (object_keys sfs) required = Some v"
  from find_version_some [OF this]
  show "\<exists>pre post. object_keys sfs = pre @ v # post \<and> satisfies E (coerce E v) required \<and>
         list_all (\<lambda>k. \<not> satisfies E (coerce E k) required) pre" .
next
  assume "required \<noteq> [] \<and> sharedFeatureServices s p = Some sfs \<and>
    find_version E (object_keys sfs) required = Some v \<and> v \<noteq> [] \<and>
    obj_read sfs v = Some bindFS"
  then show "bindFeatureService E p uid (Some required) opt s =
        (case bindFS uid (world s) of
           (Inl x, w) \<Rightarrow> (Inl (Thrown x), invoked (VersionCalled p v uid) w s)
         | (Inr binding, w) \<Rightarrow> (Inr (Some binding), invoked (VersionCalled p v uid) w s))"
    using bindFeatureService_match [of required s p sfs E v bindFS uid opt] by blast
next
  assume a: "distinct (map fst declared) \<and> list_all (\<lambda>k. \<not> is_array_index k) (map fst declared)"
  then have lit: "obj_literal declared = declared" by (simp add: obj_literal_distinct)
  from a show keys: "object_keys (obj_literal declared) = map fst declared"
    by (simp add: lit object_keys_no_index)
  show "find_version E (object_keys (obj_literal declared)) required =
        declared_first_match E declared required"
    by (simp only: keys find_version_def declared_first_match_def)
next
  assume sat: "satisfies E (coerce E ''1.0.0'') ''^1.0 || ^2.0''"
  have "object_keys (obj_literal [(''1.0.0'', a), (''2.0.0'', b)]) = [''1.0.0'', ''2.0.0'']"
    by (simp add: obj_literal_def object_keys_def own_entries_def is_array_index_def is_digit_def)
  with sat show "find_version E (object_keys (obj_literal [(''1.0.0'', a), (''2.0.0'', b)]))
      ''^1.0 || ^2.0'' = Some ''1.0.0''"
    by (simp add: find_version_def)
qed

text \<open>
  Claim C1 as stated fails for keys that are array indices: a provider that declares
  \<^verbatim>\<open>'2'\<close> before \<^verbatim>\<open>'1'\<close> has its keys listed as 1, 2, and a consumer that accepts both is
  bound to version 1, not to the version 2 that was declared first.
\<close>

theorem declaration_order_counterexample:
  "declared_first_match plain numbered_versions ''^1.0 || ^2.0'' = Some ''2'' \<and>
   find_version plain (object_keys (obj_literal numbered_versions)) ''^1.0 || ^2.0'' = Some ''1'' \<and>
   invocations (snd (bindFeatureServices plain app_numbered None with_numbered)) =
     [CreateCalled ''numbered'', VersionCalled ''numbered'' ''1'' ''app'']"
proof (intro conjI)
  show "declared_first_match plain numbered_versions ''^1.0 || ^2.0'' = Some ''2''"
    by (simp add: declared_first_match_def numbered_versions_def run_defs)
  show "find_version plain (object_keys (obj_literal numbered_versions)) ''^1.0 || ^2.0'' = Some ''1''"
    by (simp add: numbered_versions_def run_defs)
  show "invocations (snd (bindFeatureServices plain app_numbered None with_numbered)) =
     [CreateCalled ''numbered'', VersionCalled ''numbered'' ''1'' ''app'']"
    by (simp add: with_numbered_def fresh_registry_def numbered_def numbered_versions_def
        app_numbered_def stub_version_def run_defs)
qed


theorem first_match_in_key_order_witness:
  "find_version plain (object_keys (obj_literal svc_versions)) ''^1.0 || ^2.0'' = Some ''1.0.0'' \<and>
   (\<exists>pre post. object_keys (obj_literal svc_versions) = pre @ ''1.0.0'' # post \<and>
      list_all (\<lambda>k. \<not> satisfies plain (coerce plain k) ''^1.0 || ^2.0'') pre) \<and>
   bindFeatureService plain ''svc'' ''app'' (Some ''^1.0 || ^2.0'') False with_svc =
     (Inr (Some \<lparr>featureService = ''svc 1'', unbind = Some (stub_unbind ''svc 1'' None)\<rparr>),
      invoked (VersionCalled ''svc'' ''1.0.0'' ''app'') [''create svc'', ''svc 1''] with_svc) \<and>
   object_keys (obj_literal svc_versions) = [''1.0.0'', ''2.0.0''] \<and>
   declared_first_match plain svc_versions ''^1.0 || ^2.0'' = Some ''1.0.0''"
proof -
  have keys: "object_keys (obj_literal svc_versions) = [] @ ''1.0.0'' # [''2.0.0'']"
    by (simp add: svc_versions_def run_defs)
  have sat: "satisfies plain (coerce plain ''1.0.0'') ''^1.0 || ^2.0''"
    by (simp add: run_defs)
  have has_svc: "sharedFeatureServices with_svc ''svc'' = Some (obj_literal svc_versions)"
    by (simp add: with_svc_def fresh_registry_def svc_def svc_versions_def run_defs)
  have w: "world with_svc = [''create svc'']"
    by (simp add: with_svc_def fresh_registry_def svc_def svc_versions_def run_defs)
  have read: "obj_read (obj_literal svc_versions) ''1.0.0'' = Some (stub_version ''svc 1'')"
    by (simp add: svc_versions_def run_defs)
  have decl: "distinct (map fst svc_versions) \<and>
      list_all (\<lambda>k. \<not> is_array_index k) (map fst svc_versions)"
    by (simp add: svc_versions_def is_array_index_def is_digit_def)
  note inst = first_match_in_key_order [where E = plain and sfs = "obj_literal svc_versions"
      and pre = "[]" and v = "''1.0.0''" and post = "[''2.0.0'']"
      and required = "''^1.0 || ^2.0''" and s = with_svc and p = "''svc''"
      and bindFS = "stub_version ''svc 1''" and uid = "''app''" and opt = False
      and declared = svc_versions and a = "()" and b = "()"]
  from inst keys sat have found:
    "find_version plain (object_keys (obj_literal svc_versions)) ''^1.0 || ^2.0'' = Some ''1.0.0''"
    by simp
  from inst found have split: "\<exists>pre post. object_keys (obj_literal svc_versions) = pre @ ''1.0.0'' # post \<and>
      list_all (\<lambda>k. \<not> satisfies plain (coerce plain k) ''^1.0 || ^2.0'') pre"
    by blast
  from inst found has_svc read have bound:
    "bindFeatureService plain ''svc'' ''app'' (Some ''^1.0 || ^2.0'') False with_svc =
     (Inr (Some \<lparr>featureService = ''svc 1'', unbind = Some (stub_unbind ''svc 1'' None)\<rparr>),
      invoked (VersionCalled ''svc'' ''1.0.0'' ''app'') [''create svc'', ''svc 1''] with_svc)"
    by (simp add: w stub_version_def)
  from inst decl found have
    "declared_first_match plain svc_versions ''^1.0 || ^2.0'' = Some ''1.0.0''"
    by simp
  with found split bound keys show ?thesis by simp
qed


section \<open>The merged dependency map\<close>











section \<open>What registration does to the registry\<close>

text \<open>The ways through one round of the loop of registerFeatureServices.\<close>

lemma register_one_registered:
  "sharedFeatureServices s p = Some x \<Longrightarrow> byId p = Some d \<Longrightarrow>
   register_one E byId c p s =
     (Inr (), console_log (Warn (featureServiceAlreadyRegistered p c)) s)"
  by (simp add: register_one_def)

lemma register_one_registered_elsewhere:
  "sharedFeatureServices s p = Some x \<Longrightarrow> byId p = None \<Longrightarrow>
   register_one E byId c p s = (Inr (), s)"
  by (simp add: register_one_def)

lemma register_one_unknown:
  "sharedFeatureServices s p = None \<Longrightarrow> byId p = None \<Longrightarrow>
   register_one E byId c p s = (Inr (), s)"
  by (simp add: register_one_def)

lemma register_one_bind_throws:
  "sharedFeatureServices s p = None \<Longrightarrow> byId p = Some d \<Longrightarrow>
   bindFeatureServices E d None s = (Inl e, s1) \<Longrightarrow>
   register_one E byId c p s = (Inl e, s1)"
  by (simp add: register_one_def)

lemma register_one_create_throws:
  "sharedFeatureServices s p = None \<Longrightarrow> byId p = Some d \<Longrightarrow>
   bindFeatureServices E d None s = (Inr b, s1) \<Longrightarrow>
   create d \<lparr>config = (case configs s of None \<Rightarrow> None | Some cs \<Rightarrow> cs p),
             env_featureServices = featureServices b\<rparr> (world s1) = (Inl x, w) \<Longrightarrow>
   register_one E byId c p s = (Inl (Thrown x), invoked (CreateCalled p) w s1)"
  by (simp add: register_one_def)

lemma register_one_invalid:
  "sharedFeatureServices s p = None \<Longrightarrow> byId p = Some d \<Longrightarrow>
   bindFeatureServices E d None s = (Inr b, s1) \<Longrightarrow>
   create d \<lparr>config = (case configs s of None \<Rightarrow> None | Some cs \<Rightarrow> cs p),
             env_featureServices = featureServices b\<rparr> (world s1) = (Inr sfs, w) \<Longrightarrow>
   \<not> list_all (\<lambda>version. coerce E version \<noteq> None) (object_keys sfs) \<Longrightarrow>
   register_one E byId c p s =
     (Inl (Error (featureServiceVersionInvalid p c)), invoked (CreateCalled p) w s1)"
  by (simp add: register_one_def)

lemma register_one_commits:
  "sharedFeatureServices s p = None \<Longrightarrow> byId p = Some d \<Longrightarrow>
   bindFeatureServices E d None s = (Inr b, s1) \<Longrightarrow>
   create d \<lparr>config = (case configs s of None \<Rightarrow> None | Some cs \<Rightarrow> cs p),
             env_featureServices = featureServices b\<rparr> (world s1) = (Inr sfs, w) \<Longrightarrow>
   list_all (\<lambda>version. coerce E version \<noteq> None) (object_keys sfs) \<Longrightarrow>
   register_one E byId c p s =
     (Inr (),
      console_log (Info (featureServiceSuccessfullyRegistered p c))
        ((invoked (CreateCalled p) w s1)
           \<lparr>sharedFeatureServices :=
              (sharedFeatureServices (invoked (CreateCalled p) w s1))(p \<mapsto> sfs)\<rparr>))"
  by (simp add: register_one_def Let_def)

lemma register_one_cases:
  assumes "register_one E byId c p s = (r, s')"
  obtains
    (registered) x d where "sharedFeatureServices s p = Some x" "byId p = Some d"
      "r = Inr ()" "s' = console_log (Warn (featureServiceAlreadyRegistered p c)) s"
  | (skipped) "byId p = None" "r = Inr ()" "s' = s"
  | (bind_throws) d e where "sharedFeatureServices s p = None" "byId p = Some d"
      "bindFeatureServices E d None s = (Inl e, s')" "r = Inl e"
  | (create_throws) d b s1 x w where "sharedFeatureServices s p = None" "byId p = Some d"
      "bindFeatureServices E d None s = (Inr b, s1)"
      "r = Inl (Thrown x)" "s' = invoked (CreateCalled p) w s1"
      "create d \<lparr>config = (case configs s of None \<Rightarrow> None | Some cs \<Rightarrow> cs p),
                 env_featureServices = featureServices b\<rparr> (world s1) = (Inl x, w)"
  | (invalid) d b s1 sfs w where "sharedFeatureServices s p = None" "byId p = Some d"
      "bindFeatureServices E d None s = (Inr b, s1)"
      "\<not> list_all (\<lambda>version. coerce E version \<noteq> None) (object_keys sfs)"
      "r = Inl (Error (featureServiceVersionInvalid p c))" "s' = invoked (CreateCalled p) w s1"
      "create d \<lparr>config = (case configs s of None \<Rightarrow> None | Some cs \<Rightarrow> cs p),
                 env_featureServices = featureServices b\<rparr> (world s1) = (Inr sfs, w)"
  | (commits) d b s1 sfs w where "sharedFeatureServices s p = None" "byId p = Some d"
      "bindFeatureServices E d None s = (Inr b, s1)"
      "list_all (\<lambda>version. coerce E version \<noteq> None) (object_keys sfs)"
      "r = Inr ()"
      "s' = console_log (Info (featureServiceSuccessfullyRegistered p c))
              ((invoked (CreateCalled p) w s1)
                 \<lparr>sharedFeatureServices :=
                    (sharedFeatureServices (invoked (CreateCalled p) w s1))(p \<mapsto> sfs)\<rparr>)"
      "create d \<lparr>config = (case configs s of None \<Rightarrow> None | Some cs \<Rightarrow> cs p),
                 env_featureServices = featureServices b\<rparr> (world s1) = (Inr sfs, w)"
proof (cases "byId p")
  case None
  show ?thesis
  proof (cases "sharedFeatureServices s p")
    case n: None
    from assms register_one_unknown [where byId = byId and p = p, OF n None, of E c] have "r = Inr ()" "s' = s" by simp_all
    with None show ?thesis by (rule skipped)
  next
    case (Some x)
    from assms register_one_registered_elsewhere [where byId = byId and p = p, OF Some None, of E c]
    have "r = Inr ()" "s' = s" by simp_all
    with None show ?thesis by (rule skipped)
  qed
next
  case (Some d)
  show ?thesis
  proof (cases "sharedFeatureServices s p")
    case x: (Some x)
    from assms register_one_registered [where byId = byId and p = p, OF x Some, of E c]
    have "r = Inr ()" "s' = console_log (Warn (featureServiceAlreadyRegistered p c)) s"
      by simp_all
    with x Some show ?thesis by (rule registered)
  next
    case None
    obtain rb s1 where bound: "bindFeatureServices E d None s = (rb, s1)"
      by (cases "bindFeatureServices E d None s")
    show ?thesis
    proof (cases rb)
      case (Inl e)
      with bound have b: "bindFeatureServices E d None s = (Inl e, s1)" by simp
      from assms register_one_bind_throws [where byId = byId and p = p, OF None Some b, of c]
      have "r = Inl e" "s' = s1" by simp_all
      with b None Some show ?thesis using bind_throws by blast
    next
      case (Inr b)
      with bound have b: "bindFeatureServices E d None s = (Inr b, s1)" by simp
      let ?env = "\<lparr>config = (case configs s of None \<Rightarrow> None | Some cs \<Rightarrow> cs p),
                    env_featureServices = featureServices b\<rparr>"
      obtain rc w where created: "create d ?env (world s1) = (rc, w)"
        by (cases "create d ?env (world s1)")
      show ?thesis
      proof (cases rc)
        case (Inl x)
        with created have c: "create d ?env (world s1) = (Inl x, w)" by simp
        from assms register_one_create_throws [where byId = byId and p = p, OF None Some b c, of c]
        have "r = Inl (Thrown x)" "s' = invoked (CreateCalled p) w s1" by simp_all
        with b None Some c show ?thesis using create_throws by blast
      next
        case (Inr sfs)
        with created have c: "create d ?env (world s1) = (Inr sfs, w)" by simp
        show ?thesis
        proof (cases "list_all (\<lambda>version. coerce E version \<noteq> None) (object_keys sfs)")
          case True
          from assms register_one_commits [where byId = byId and p = p, OF None Some b c True, of c]
          have "r = Inr ()"
            "s' = console_log (Info (featureServiceSuccessfullyRegistered p c))
              ((invoked (CreateCalled p) w s1)
                 \<lparr>sharedFeatureServices :=
                    (sharedFeatureServices (invoked (CreateCalled p) w s1))(p \<mapsto> sfs)\<rparr>)"
            by simp_all
          with b None Some True c show ?thesis using commits by blast
        next
          case False
          from assms register_one_invalid [where byId = byId and p = p, OF None Some b c False, of c]
          have "r = Inl (Error (featureServiceVersionInvalid p c))"
            "s' = invoked (CreateCalled p) w s1" by simp_all
          with b None Some False c show ?thesis using invalid by blast
        qed
      qed
    qed
  qed
qed

lemma register_one_fields:
  assumes "register_one E byId c p s = (r, s')"
  shows "unbound s' = unbound s"
    and "configs s' = configs s"
    and "consumerUids s \<subseteq> consumerUids s'"
    and "closures s \<le> closures s'"
    and "sharedFeatureServices s \<subseteq>\<^sub>m sharedFeatureServices s'"
proof -
  have "unbound s' = unbound s \<and> configs s' = configs s \<and> consumerUids s \<subseteq> consumerUids s' \<and>
        closures s \<le> closures s' \<and> sharedFeatureServices s \<subseteq>\<^sub>m sharedFeatureServices s'"
    using assms
  proof (cases rule: register_one_cases)
    case (registered x d)
    then show ?thesis by simp
  next
    case skipped
    then show ?thesis by simp
  next
    case (bind_throws d e)
    from bindFeatureServices_throws(1-5) [OF bind_throws(3)] show ?thesis by simp
  next
    case (create_throws d b s1 x w)
    from bindFeatureServices_returns(1,2,4,5,6) [OF create_throws(3)] create_throws(5)
    show ?thesis by auto
  next
    case (invalid d b s1 sfs w)
    from bindFeatureServices_returns(1,2,4,5,6) [OF invalid(3)] invalid(6)
    show ?thesis by auto
  next
    case (commits d b s1 sfs w)
    from bindFeatureServices_returns(1,2,4,5,6) [OF commits(3)] commits(1,6)
    show ?thesis by (auto simp: map_le_def)
  qed
  then show "unbound s' = unbound s"
    and "configs s' = configs s"
    and "consumerUids s \<subseteq> consumerUids s'"
    and "closures s \<le> closures s'"
    and "sharedFeatureServices s \<subseteq>\<^sub>m sharedFeatureServices s'"
    by simp_all
qed

lemma register_loop_throw:
  "register_one E byId c p s = (Inl e, s1) \<Longrightarrow>
   register_loop E byId c (p # rest) s = (Inl e, s1)"
  by simp

lemma register_loop_continue:
  "register_one E byId c p s = (Inr u, s1) \<Longrightarrow>
   register_loop E byId c (p # rest) s = register_loop E byId c rest s1"
  by simp

lemma register_loop_fields:
  "register_loop E byId c ps s = (r, s') \<Longrightarrow>
   unbound s' = unbound s \<and> configs s' = configs s \<and> consumerUids s \<subseteq> consumerUids s' \<and>
   closures s \<le> closures s' \<and> sharedFeatureServices s \<subseteq>\<^sub>m sharedFeatureServices s'"
proof (induction ps arbitrary: s)
  case Nil
  then show ?case by simp
next
  case (Cons p ps)
  obtain r1 s1 where step: "register_one E byId c p s = (r1, s1)"
    by (cases "register_one E byId c p s")
  note f = register_one_fields [OF step]
  show ?case
  proof (cases r1)
    case (Inl e)
    with step Cons.prems have "s' = s1" by (simp add: register_loop_throw del: register_loop.simps)
    with f show ?thesis by simp
  next
    case (Inr u)
    with step Cons.prems have "register_loop E byId c ps s1 = (r, s')"
      by (simp add: register_loop_continue del: register_loop.simps)
    from Cons.IH [OF this] f show ?thesis
      by (auto intro: map_le_trans)
  qed
qed

lemma registerFeatureServices_fields:
  assumes "registerFeatureServices E defs c s = (r, s')"
  shows "unbound s' = unbound s"
    and "configs s' = configs s"
    and "consumerUids s \<subseteq> consumerUids s'"
    and "closures s \<le> closures s'"
    and "sharedFeatureServices s \<subseteq>\<^sub>m sharedFeatureServices s'"
proof -
  have "unbound s' = unbound s \<and> configs s' = configs s \<and> consumerUids s \<subseteq> consumerUids s' \<and>
        closures s \<le> closures s' \<and> sharedFeatureServices s \<subseteq>\<^sub>m sharedFeatureServices s'"
  proof (cases "toposortDependencies E (createDependencyGraph defs)")
    case (Inl x)
    with assms show ?thesis by (simp add: registerFeatureServices_def)
  next
    case (Inr order)
    with assms have
      "register_loop E (createProviderDefinitionById defs) c order s = (r, s')"
      by (simp add: registerFeatureServices_def)
    from register_loop_fields [OF this] show ?thesis .
  qed
  then show "unbound s' = unbound s"
    and "configs s' = configs s"
    and "consumerUids s \<subseteq> consumerUids s'"
    and "closures s \<le> closures s'"
    and "sharedFeatureServices s \<subseteq>\<^sub>m sharedFeatureServices s'"
    by simp_all
qed


lemma bindFeatureServices_invocations:
  assumes "bindFeatureServices E d spec s = (r, s')"
  shows "\<exists>new. invocations s' = invocations s @ new \<and> list_all is_version_call new"
proof (cases r)
  case (Inl e)
  with assms bindFeatureServices_throws(6) [of E d spec s e s'] show ?thesis by simp
next
  case (Inr b)
  with assms have b: "bindFeatureServices E d spec s = (Inr b, s')" by simp
  let ?uid = "createUid E (consumer_id d) spec"
  let ?all = "spread (or_empty (optionalDependencies d)) (or_empty (dependencies d))"
  have fresh: "?uid \<notin> consumerUids s" by (rule bindFeatureServices_returns(3) [OF b])
  obtain r1 s1 where loop:
    "bind_loop E ?uid (or_empty (dependencies d)) ?all (object_keys ?all) ([], []) s = (r1, s1)"
    by (cases "bind_loop E ?uid (or_empty (dependencies d)) ?all (object_keys ?all) ([], []) s")
  from b bindFeatureServices_fresh [OF fresh] loop have "invocations s' = invocations s1"
    by (cases r1) auto
  with bind_loop_invocations [OF loop] show ?thesis by simp
qed

lemma version_calls_no_create:
  "list_all is_version_call new \<Longrightarrow> CreateCalled q \<notin> set new"
  by (induction new) auto

lemma register_one_invocations:
  assumes "register_one E byId c p s = (r, s')"
  shows "\<exists>new. invocations s' = invocations s @ new \<and>
           (CreateCalled q \<in> set new \<longrightarrow> q = p \<and> sharedFeatureServices s p = None)"
  using assms
proof (cases rule: register_one_cases)
  case (registered x d)
  then show ?thesis by simp
next
  case skipped
  then show ?thesis by simp
next
  case (bind_throws d e)
  from bindFeatureServices_invocations [OF bind_throws(3)] obtain new where
    "invocations s' = invocations s @ new" "list_all is_version_call new" by blast
  with version_calls_no_create [of new q] show ?thesis by auto
next
  case (create_throws d b s1 x w)
  from bindFeatureServices_invocations [OF create_throws(3)] obtain new where
    n: "invocations s1 = invocations s @ new" "list_all is_version_call new" by blast
  with create_throws(5) have "invocations s' = invocations s @ (new @ [CreateCalled p])" by simp
  with version_calls_no_create [OF n(2), of q] create_throws(1) show ?thesis
    by (intro exI [of _ "new @ [CreateCalled p]"]) auto
next
  case (invalid d b s1 sfs w)
  from bindFeatureServices_invocations [OF invalid(3)] obtain new where
    n: "invocations s1 = invocations s @ new" "list_all is_version_call new" by blast
  with invalid(6) have "invocations s' = invocations s @ (new @ [CreateCalled p])" by simp
  with version_calls_no_create [OF n(2), of q] invalid(1) show ?thesis
    by (intro exI [of _ "new @ [CreateCalled p]"]) auto
next
  case (commits d b s1 sfs w)
  from bindFeatureServices_invocations [OF commits(3)] obtain new where
    n: "invocations s1 = invocations s @ new" "list_all is_version_call new" by blast
  with commits(6) have "invocations s' = invocations s @ (new @ [CreateCalled p])" by simp
  with version_calls_no_create [OF n(2), of q] commits(1) show ?thesis
    by (intro exI [of _ "new @ [CreateCalled p]"]) auto
qed

text \<open>A provider that is registered stays as it is, and its create is not called again.\<close>

lemma register_loop_keeps:
  "register_loop E byId c ps s = (r, s') \<Longrightarrow> sharedFeatureServices s q = Some x \<Longrightarrow>
   sharedFeatureServices s' q = Some x \<and>
   (\<exists>new. invocations s' = invocations s @ new \<and> CreateCalled q \<notin> set new)"
proof (induction ps arbitrary: s)
  case Nil
  then show ?case by simp
next
  case (Cons p ps)
  obtain r1 s1 where step: "register_one E byId c p s = (r1, s1)"
    by (cases "register_one E byId c p s")
  from register_one_fields(5) [OF step] Cons.prems(2)
  have kept: "sharedFeatureServices s1 q = Some x"
    by (auto simp: map_le_def dom_def)
  from register_one_invocations [OF step, of q] Cons.prems(2) obtain n1 where
    n1: "invocations s1 = invocations s @ n1" "CreateCalled q \<notin> set n1" by auto
  show ?case
  proof (cases r1)
    case (Inl e)
    with step Cons.prems(1) have "s' = s1"
      by (simp add: register_loop_throw del: register_loop.simps)
    with kept n1 show ?thesis by blast
  next
    case (Inr u)
    with step Cons.prems(1) have "register_loop E byId c ps s1 = (r, s')"
      by (simp add: register_loop_continue del: register_loop.simps)
    from Cons.IH [OF this kept] obtain n2 where
      "sharedFeatureServices s' q = Some x" "invocations s' = invocations s1 @ n2"
      "CreateCalled q \<notin> set n2" by blast
    with n1 show ?thesis by (intro conjI exI [of _ "n1 @ n2"]) auto
  qed
qed

lemma register_loop_append:
  "register_loop E byId c (pre @ rest) s =
     (case register_loop E byId c pre s of
        (Inl e, s1) \<Rightarrow> (Inl e, s1)
      | (Inr u, s1) \<Rightarrow> register_loop E byId c rest s1)"
proof (induction pre arbitrary: s)
  case Nil
  then show ?case by simp
next
  case (Cons p pre)
  obtain r1 s1 where step: "register_one E byId c p s = (r1, s1)"
    by (cases "register_one E byId c p s")
  show ?case
  proof (cases r1)
    case (Inl e)
    with step show ?thesis by simp
  next
    case (Inr u)
    with step Cons.IH [of s1] show ?thesis by simp
  qed
qed


section \<open>Registering a provider id again\<close>

lemma bindFeatureService_console:
  assumes "bindFeatureService E p uid rv opt s = (r, s')"
  shows "set (console s) \<subseteq> set (console s')"
  using bindFeatureService_cases [OF assms] by auto

lemma bind_loop_console:
  "bind_loop E uid deps allDeps ks acc s = (r, s') \<Longrightarrow> set (console s) \<subseteq> set (console s')"
proof (induction ks arbitrary: acc s)
  case Nil
  then show ?case by simp
next
  case (Cons k ks)
  show ?case
  proof (cases "hasOwnProperty deps ''hasOwnProperty''")
    case True
    from Cons.prems bind_loop_shadowed [OF True, of E uid allDeps k ks acc s]
    show ?thesis by simp
  next
    case False
    note unshadowed = False
    obtain r1 s1 where step:
      "bindFeatureService E k uid (obj_read allDeps k) (\<not> hasOwnProperty deps k) s = (r1, s1)"
      by (cases "bindFeatureService E k uid (obj_read allDeps k) (\<not> hasOwnProperty deps k) s")
    note c = bindFeatureService_console [OF step]
    show ?thesis
    proof (cases r1)
      case (Inl e)
      with step have "bind_loop E uid deps allDeps (k # ks) acc s = (Inl e, s1)"
        by (simp only: bind_loop_throw [OF unshadowed])
      with Cons.prems c show ?thesis by simp
    next
      case (Inr ob)
      show ?thesis
      proof (cases ob)
        case None
        with step Inr have
          "bind_loop E uid deps allDeps (k # ks) acc s = bind_loop E uid deps allDeps ks acc s1"
          by (simp only: bind_loop_skip [OF unshadowed])
        with Cons.prems have "bind_loop E uid deps allDeps ks acc s1 = (r, s')" by simp
        from Cons.IH [OF this] c show ?thesis by blast
      next
        case (Some b)
        let ?s2 = "console_log (Info (featureServiceSuccessfullyBound k uid)) s1"
        let ?acc = "(Map_set (fst acc) k b, obj_set (snd acc) k (featureService b))"
        from step Inr Some have
          "bind_loop E uid deps allDeps (k # ks) acc s = bind_loop E uid deps allDeps ks ?acc ?s2"
          by (simp only: bind_loop_bound [OF unshadowed])
        with Cons.prems have "bind_loop E uid deps allDeps ks ?acc ?s2 = (r, s')" by simp
        from Cons.IH [OF this] c show ?thesis by auto
      qed
    qed
  qed
qed

lemma bindFeatureServices_console:
  assumes "bindFeatureServices E d spec s = (r, s')"
  shows "set (console s) \<subseteq> set (console s')"
proof (cases "createUid E (consumer_id d) spec \<in> consumerUids s")
  case True
  from assms bindFeatureServices_already_bound [OF True] show ?thesis by simp
next
  case False
  let ?uid = "createUid E (consumer_id d) spec"
  let ?all = "spread (or_empty (optionalDependencies d)) (or_empty (dependencies d))"
  obtain r1 s1 where loop:
    "bind_loop E ?uid (or_empty (dependencies d)) ?all (object_keys ?all) ([], []) s = (r1, s1)"
    by (cases "bind_loop E ?uid (or_empty (dependencies d)) ?all (object_keys ?all) ([], []) s")
  from assms bindFeatureServices_fresh [OF False] loop have "console s' = console s1"
    by (cases r1) auto
  with bind_loop_console [OF loop] show ?thesis by simp
qed

lemma register_one_console:
  assumes "register_one E byId c p s = (r, s')"
  shows "set (console s) \<subseteq> set (console s')"
  using assms
proof (cases rule: register_one_cases)
  case (registered x d)
  then show ?thesis by auto
next
  case skipped
  then show ?thesis by simp
next
  case (bind_throws d e)
  from bindFeatureServices_console [OF bind_throws(3)] show ?thesis .
next
  case (create_throws d b s1 x w)
  from bindFeatureServices_console [OF create_throws(3)] create_throws(5) show ?thesis by simp
next
  case (invalid d b s1 sfs w)
  from bindFeatureServices_console [OF invalid(3)] invalid(6) show ?thesis by simp
next
  case (commits d b s1 sfs w)
  from bindFeatureServices_console [OF commits(3)] commits(6) show ?thesis by auto
qed

lemma register_loop_console:
  "register_loop E byId c ps s = (r, s') \<Longrightarrow> set (console s) \<subseteq> set (console s')"
proof (induction ps arbitrary: s)
  case Nil
  then show ?case by simp
next
  case (Cons p ps)
  obtain r1 s1 where step: "register_one E byId c p s = (r1, s1)"
    by (cases "register_one E byId c p s")
  note c = register_one_console [OF step]
  show ?case
  proof (cases r1)
    case (Inl e)
    with step Cons.prems have "s' = s1"
      by (simp add: register_loop_throw del: register_loop.simps)
    with c show ?thesis by simp
  next
    case (Inr u)
    with step Cons.prems have "register_loop E byId c ps s1 = (r, s')"
      by (simp add: register_loop_continue del: register_loop.simps)
    from Cons.IH [OF this] c show ?thesis by blast
  qed
qed

lemma register_loop_warns:
  "register_loop E byId c ps s = (Inr u, s') \<Longrightarrow> p \<in> set ps \<Longrightarrow> byId p = Some d \<Longrightarrow>
   sharedFeatureServices s p = Some x \<Longrightarrow>
   Warn (featureServiceAlreadyRegistered p c) \<in> set (console s')"
proof (induction ps arbitrary: s)
  case Nil
  then show ?case by simp
next
  case (Cons q ps)
  obtain r1 s1 where step: "register_one E byId c q s = (r1, s1)"
    by (cases "register_one E byId c q s")
  show ?case
  proof (cases r1)
    case (Inl e)
    with step Cons.prems(1) show ?thesis
      by (simp add: register_loop_throw del: register_loop.simps)
  next
    case (Inr v)
    with step Cons.prems(1) have rest: "register_loop E byId c ps s1 = (Inr u, s')"
      by (simp add: register_loop_continue del: register_loop.simps)
    show ?thesis
    proof (cases "q = p")
      case True
      from step register_one_registered [where byId = byId and p = p, OF Cons.prems(4,3), of E c] True
      have "s1 = console_log (Warn (featureServiceAlreadyRegistered p c)) s" by simp
      then have "Warn (featureServiceAlreadyRegistered p c) \<in> set (console s1)" by simp
      with register_loop_console [OF rest] show ?thesis by blast
    next
      case False
      with Cons.prems(2) have "p \<in> set ps" by simp
      moreover from register_one_fields(5) [OF step] Cons.prems(4)
      have "sharedFeatureServices s1 p = Some x" by (auto simp: map_le_def dom_def)
      ultimately show ?thesis using Cons.IH [OF rest] Cons.prems(3) by blast
    qed
  qed
qed

text \<open>
  Claim C4. A provider id that is registered keeps its shared service through every later
  call of \<open>registerFeatureServices\<close>, whatever the call is given and however it ends, and
  \<open>create\<close> is not invoked for that id again. The round of the loop that meets the id, when
  the batch defines it, logs the warning, changes nothing else and goes on with the
  remaining ids; so a call that returns normally and had the id in its order has logged
  the warning.
\<close>

theorem second_registration_is_ignored:
  "(sharedFeatureServices s p = Some x \<longrightarrow>
      sharedFeatureServices (snd (registerFeatureServices E defs c s)) p = Some x \<and>
      (\<exists>new. invocations (snd (registerFeatureServices E defs c s)) = invocations s @ new \<and>
         CreateCalled p \<notin> set new)) \<and>
   (sharedFeatureServices s p = Some x \<and> byId p = Some d \<longrightarrow>
      register_one E byId c p s =
        (Inr (), console_log (Warn (featureServiceAlreadyRegistered p c)) s) \<and>
      register_loop E byId c (p # rest) s =
        register_loop E byId c rest (console_log (Warn (featureServiceAlreadyRegistered p c)) s)) \<and>
   (sharedFeatureServices s p = Some x \<and>
    toposortDependencies E (createDependencyGraph defs) = Inr order \<and> p \<in> set order \<and>
    createProviderDefinitionById defs p = Some d \<and>
    fst (registerFeatureServices E defs c s) = Inr () \<longrightarrow>
      Warn (featureServiceAlreadyRegistered p c)
        \<in> set (console (snd (registerFeatureServices E defs c s))))"
proof (intro conjI impI)
  assume reg: "sharedFeatureServices s p = Some x"
  obtain r s' where res: "registerFeatureServices E defs c s = (r, s')"
    by (cases "registerFeatureServices E defs c s")
  have "sharedFeatureServices s' p = Some x \<and>
        (\<exists>new. invocations s' = invocations s @ new \<and> CreateCalled p \<notin> set new)"
  proof (cases "toposortDependencies E (createDependencyGraph defs)")
    case (Inl e)
    with res reg show ?thesis by (simp add: registerFeatureServices_def)
  next
    case (Inr order)
    with res have "register_loop E (createProviderDefinitionById defs) c order s = (r, s')"
      by (simp add: registerFeatureServices_def)
    from register_loop_keeps [OF this reg] show ?thesis .
  qed
  with res show "sharedFeatureServices (snd (registerFeatureServices E defs c s)) p = Some x"
    and "\<exists>new. invocations (snd (registerFeatureServices E defs c s)) = invocations s @ new \<and>
         CreateCalled p \<notin> set new" by simp_all
next
  assume a: "sharedFeatureServices s p = Some x \<and> byId p = Some d"
  then have one: "register_one E byId c p s =
        (Inr (), console_log (Warn (featureServiceAlreadyRegistered p c)) s)"
    using register_one_registered [where byId = byId and p = p and s = s] by blast
  then show "register_one E byId c p s =
        (Inr (), console_log (Warn (featureServiceAlreadyRegistered p c)) s)" .
  from one show "register_loop E byId c (p # rest) s =
        register_loop E byId c rest (console_log (Warn (featureServiceAlreadyRegistered p c)) s)"
    by (rule register_loop_continue)
next
  assume a: "sharedFeatureServices s p = Some x \<and>
    toposortDependencies E (createDependencyGraph defs) = Inr order \<and> p \<in> set order \<and>
    createProviderDefinitionById defs p = Some d \<and>
    fst (registerFeatureServices E defs c s) = Inr ()"
  obtain r s' where res: "registerFeatureServices E defs c s = (r, s')"
    by (cases "registerFeatureServices E defs c s")
  from a have topo: "toposortDependencies E (createDependencyGraph defs) = Inr order"
    and ok: "fst (registerFeatureServices E defs c s) = Inr ()" by simp_all
  from res ok have "r = Inr ()" by simp
  with res topo have "register_loop E (createProviderDefinitionById defs) c order s = (Inr (), s')"
    by (simp add: registerFeatureServices_def)
  from register_loop_warns [OF this] a
  have "Warn (featureServiceAlreadyRegistered p c) \<in> set (console s')" by blast
  with res show "Warn (featureServiceAlreadyRegistered p c)
        \<in> set (console (snd (registerFeatureServices E defs c s)))" by simp
qed


theorem second_registration_is_ignored_witness:
  "fst (registerFeatureServices plain [svc_again] ''other'' with_svc) = Inr () \<and>
   sharedFeatureServices (snd (registerFeatureServices plain [svc_again] ''other'' with_svc)) ''svc'' =
     Some (obj_literal svc_versions) \<and>
   CreateCalled ''svc'' \<notin> set (drop (length (invocations with_svc))
     (invocations (snd (registerFeatureServices plain [svc_again] ''other'' with_svc)))) \<and>
   world (snd (registerFeatureServices plain [svc_again] ''other'' with_svc)) = [''create svc''] \<and>
   Warn (featureServiceAlreadyRegistered ''svc'' ''other'')
     \<in> set (console (snd (registerFeatureServices plain [svc_again] ''other'' with_svc)))"
proof -
  have has_svc: "sharedFeatureServices with_svc ''svc'' = Some (obj_literal svc_versions)"
    by (simp add: with_svc_def fresh_registry_def svc_def svc_versions_def run_defs)
  have topo: "toposortDependencies plain (createDependencyGraph [svc_again]) = Inr [''svc'']"
    by (simp add: svc_again_def run_defs)
  have byId: "createProviderDefinitionById [svc_again] ''svc'' = Some svc_again"
    by (simp add: createProviderDefinitionById_def svc_again_def)
  have ok: "fst (registerFeatureServices plain [svc_again] ''other'' with_svc) = Inr ()"
    by (simp add: registerFeatureServices_def topo byId has_svc register_one_def)
  have w: "world (snd (registerFeatureServices plain [svc_again] ''other'' with_svc)) =
      [''create svc'']"
    by (simp add: registerFeatureServices_def topo byId has_svc register_one_def)
      (simp add: with_svc_def fresh_registry_def svc_def svc_versions_def run_defs)
  note inst = second_registration_is_ignored [where E = plain and s = with_svc and p = "''svc''"
      and x = "obj_literal svc_versions" and defs = "[svc_again]" and c = "''other''"
      and byId = "createProviderDefinitionById [svc_again]" and d = svc_again
      and order = "[''svc'']" and rest = "[]"]
  from inst has_svc obtain new where
    kept: "sharedFeatureServices (snd (registerFeatureServices plain [svc_again] ''other'' with_svc))
       ''svc'' = Some (obj_literal svc_versions)"
    and new: "invocations (snd (registerFeatureServices plain [svc_again] ''other'' with_svc)) =
       invocations with_svc @ new" "CreateCalled ''svc'' \<notin> set new"
    by blast
  from inst has_svc topo byId ok have warned:
    "Warn (featureServiceAlreadyRegistered ''svc'' ''other'')
     \<in> set (console (snd (registerFeatureServices plain [svc_again] ''other'' with_svc)))"
    by simp
  from ok kept new w warned show ?thesis by simp
qed

section \<open>A provider with an invalid version key\<close>

text \<open>What is stored was validated.\<close>

lemma register_one_stores_valid:
  assumes "register_one E byId c q t = (r, t')"
    and "sharedFeatureServices t q = None"
    and "sharedFeatureServices t' q = Some x"
  shows "list_all (\<lambda>version. coerce E version \<noteq> None) (object_keys x)"
  using assms(1)
proof (cases rule: register_one_cases)
  case (registered y d)
  with assms(2) show ?thesis by simp
next
  case skipped
  with assms(2,3) show ?thesis by simp
next
  case (bind_throws d e)
  from bindFeatureServices_throws(1) [OF bind_throws(3)] assms(2,3) show ?thesis by simp
next
  case (create_throws d b s1 y w)
  from bindFeatureServices_returns(1) [OF create_throws(3)] create_throws(5) assms(2,3)
  show ?thesis by simp
next
  case (invalid d b s1 sfs w)
  from bindFeatureServices_returns(1) [OF invalid(3)] invalid(6) assms(2,3)
  show ?thesis by simp
next
  case (commits d b s1 sfs w)
  from commits(6) assms(3) have "x = sfs" by simp
  with commits(4) show ?thesis by simp
qed

text \<open>
  Claim C2. Let the resolved order be \<open>pre\<close>, then \<open>p\<close>, then \<open>post\<close>; let the providers of
  \<open>pre\<close> be done, \<open>p\<close> be unregistered and defined by the batch, its dependencies bound and
  its \<open>create\<close> return a shared service one of whose keys \<open>coerce\<close> rejects. Then
  \<open>registerFeatureServices\<close> throws the error made from the provider and the registering
  consumer, and the registered providers are exactly those after \<open>pre\<close>: \<open>p\<close> is not among
  them, and whatever was registered before the call or by \<open>pre\<close> still is. Conversely a
  round of the loop that stores a shared service for an id has found every key of it
  coercible.
\<close>

theorem invalid_version_is_not_committed:
  "(toposortDependencies E (createDependencyGraph defs) = Inr (pre @ p # post) \<and>
    register_loop E (createProviderDefinitionById defs) c pre s = (Inr (), s1) \<and>
    sharedFeatureServices s1 p = None \<and>
    createProviderDefinitionById defs p = Some d \<and>
    bindFeatureServices E d None s1 = (Inr b, s2) \<and>
    create d \<lparr>config = (case configs s1 of None \<Rightarrow> None | Some cs \<Rightarrow> cs p),
              env_featureServices = featureServices b\<rparr> (world s2) = (Inr sfs, w) \<and>
    k \<in> set (object_keys sfs) \<and> coerce E k = None \<longrightarrow>
      registerFeatureServices E defs c s =
        (Inl (Error (featureServiceVersionInvalid p c)), invoked (CreateCalled p) w s2) \<and>
      sharedFeatureServices (invoked (CreateCalled p) w s2) = sharedFeatureServices s1 \<and>
      sharedFeatureServices s \<subseteq>\<^sub>m sharedFeatureServices s1) \<and>
   (register_one E byId c q t = (r, t') \<and> sharedFeatureServices t q = None \<and>
    sharedFeatureServices t' q = Some x \<longrightarrow>
      list_all (\<lambda>version. coerce E version \<noteq> None) (object_keys x))"
proof (intro conjI impI)
  assume a: "toposortDependencies E (createDependencyGraph defs) = Inr (pre @ p # post) \<and>
    register_loop E (createProviderDefinitionById defs) c pre s = (Inr (), s1) \<and>
    sharedFeatureServices s1 p = None \<and>
    createProviderDefinitionById defs p = Some d \<and>
    bindFeatureServices E d None s1 = (Inr b, s2) \<and>
    create d \<lparr>config = (case configs s1 of None \<Rightarrow> None | Some cs \<Rightarrow> cs p),
              env_featureServices = featureServices b\<rparr> (world s2) = (Inr sfs, w) \<and>
    k \<in> set (object_keys sfs) \<and> coerce E k = None"
  let ?byId = "createProviderDefinitionById defs"
  from a have topo: "toposortDependencies E (createDependencyGraph defs) = Inr (pre @ p # post)"
    and pre: "register_loop E ?byId c pre s = (Inr (), s1)"
    and fresh: "sharedFeatureServices s1 p = None"
    and d: "?byId p = Some d"
    and b: "bindFeatureServices E d None s1 = (Inr b, s2)"
    and cr: "create d \<lparr>config = (case configs s1 of None \<Rightarrow> None | Some cs \<Rightarrow> cs p),
              env_featureServices = featureServices b\<rparr> (world s2) = (Inr sfs, w)"
    and k: "k \<in> set (object_keys sfs)" "coerce E k = None"
    by simp_all
  from k have bad: "\<not> list_all (\<lambda>version. coerce E version \<noteq> None) (object_keys sfs)"
    by (auto simp: list_all_iff)
  have one: "register_one E ?byId c p s1 =
      (Inl (Error (featureServiceVersionInvalid p c)), invoked (CreateCalled p) w s2)"
    by (rule register_one_invalid [where byId = ?byId and p = p, OF fresh d b cr bad])
  have "register_loop E ?byId c (p # post) s1 =
      (Inl (Error (featureServiceVersionInvalid p c)), invoked (CreateCalled p) w s2)"
    using one by (rule register_loop_throw)
  with pre have "register_loop E ?byId c (pre @ p # post) s =
      (Inl (Error (featureServiceVersionInvalid p c)), invoked (CreateCalled p) w s2)"
    by (simp add: register_loop_append del: register_loop.simps)
  with topo show "registerFeatureServices E defs c s =
        (Inl (Error (featureServiceVersionInvalid p c)), invoked (CreateCalled p) w s2)"
    by (simp add: registerFeatureServices_def)
  show "sharedFeatureServices (invoked (CreateCalled p) w s2) = sharedFeatureServices s1"
    using bindFeatureServices_returns(1) [OF b] by simp
  show "sharedFeatureServices s \<subseteq>\<^sub>m sharedFeatureServices s1"
    using register_loop_fields [OF pre] by simp
next
  assume "register_one E byId c q t = (r, t') \<and> sharedFeatureServices t q = None \<and>
    sharedFeatureServices t' q = Some x"
  then show "list_all (\<lambda>version. coerce E version \<noteq> None) (object_keys x)"
    using register_one_stores_valid [of E byId c q t r t' x] by blast
qed

theorem invalid_version_is_not_committed_witness:
  "fst (registerFeatureServices plain [broken, svc] ''integrator'' fresh_registry) =
     Inl (Error (featureServiceVersionInvalid ''broken'' ''integrator'')) \<and>
   sharedFeatureServices
     (snd (registerFeatureServices plain [broken, svc] ''integrator'' fresh_registry)) ''broken'' =
     None \<and>
   sharedFeatureServices
     (snd (registerFeatureServices plain [broken, svc] ''integrator'' fresh_registry)) ''svc'' =
     Some (obj_literal svc_versions)"
proof -
  let ?byId = "createProviderDefinitionById [broken, svc]"
  let ?s1 = "snd (register_loop plain ?byId ''integrator'' [''svc''] fresh_registry)"
  let ?sfs = "obj_literal [(''1.0.0'', Some (stub_version ''broken 1'')),
                           (''latest'', Some (stub_version ''broken latest''))]"
  have topo: "toposortDependencies plain (createDependencyGraph [broken, svc]) =
      Inr ([''svc''] @ ''broken'' # [])"
    by (simp add: broken_def svc_def run_defs)
  have byId_svc: "?byId ''svc'' = Some svc"
    by (simp add: createProviderDefinitionById_def broken_def svc_def)
  have byId_broken: "?byId ''broken'' = Some broken"
    by (simp add: createProviderDefinitionById_def broken_def svc_def)
  have "fst (register_loop plain ?byId ''integrator'' [''svc''] fresh_registry) = Inr ()"
    by (simp add: byId_svc fresh_registry_def svc_def svc_versions_def run_defs)
  then have pre: "register_loop plain ?byId ''integrator'' [''svc''] fresh_registry = (Inr (), ?s1)"
    by (simp add: prod_eq_iff)
  have fresh: "sharedFeatureServices ?s1 ''broken'' = None"
    by (simp add: byId_svc fresh_registry_def svc_def svc_versions_def run_defs)
  have has_svc: "sharedFeatureServices ?s1 ''svc'' = Some (obj_literal svc_versions)"
    by (simp add: byId_svc fresh_registry_def svc_def svc_versions_def run_defs)
  have "\<exists>b s2. bindFeatureServices plain broken None ?s1 = (Inr b, s2)"
    by (simp add: byId_svc fresh_registry_def svc_def svc_versions_def broken_def
        stub_version_def run_defs)
  then obtain b s2 where b: "bindFeatureServices plain broken None ?s1 = (Inr b, s2)" by blast
  have cr: "create broken
      \<lparr>config = (case configs ?s1 of None \<Rightarrow> None | Some cs \<Rightarrow> cs ''broken''),
       env_featureServices = featureServices b\<rparr> (world s2) =
      (Inr ?sfs, world s2 @ [''create broken''])"
    by (simp add: broken_def)
  have k: "''latest'' \<in> set (object_keys ?sfs)" "coerce plain ''latest'' = None"
    by (simp_all add: run_defs)
  note inst = invalid_version_is_not_committed [where E = plain and defs = "[broken, svc]"
      and pre = "[''svc'']" and p = "''broken''" and post = "[]" and c = "''integrator''"
      and s = fresh_registry and ?s1.0 = ?s1 and d = broken and b = b and ?s2.0 = s2
      and sfs = ?sfs and w = "world s2 @ [''create broken'']" and k = "''latest''"]
  from inst topo pre fresh byId_broken b cr k have
    res: "registerFeatureServices plain [broken, svc] ''integrator'' fresh_registry =
        (Inl (Error (featureServiceVersionInvalid ''broken'' ''integrator'')),
         invoked (CreateCalled ''broken'') (world s2 @ [''create broken'']) s2)"
    and same: "sharedFeatureServices
        (invoked (CreateCalled ''broken'') (world s2 @ [''create broken'']) s2) =
        sharedFeatureServices ?s1"
    by blast+
  from res same fresh has_svc show ?thesis by simp
qed


section \<open>Binding and unbinding a uid\<close>

lemma call_unbind_fields:
  assumes "call_unbind h s = (r, s')"
  shows "sharedFeatureServices s' = sharedFeatureServices s"
    and "configs s' = configs s"
    and "closures s' = closures s"
    and "unbound s \<subseteq> unbound s'"
    and "consumerUids s' \<subseteq> consumerUids s"
proof -
  have "sharedFeatureServices s' = sharedFeatureServices s \<and> configs s' = configs s \<and>
        closures s' = closures s \<and> unbound s \<subseteq> unbound s' \<and> consumerUids s' \<subseteq> consumerUids s"
  proof (cases "closure_id h \<in> unbound s")
    case True
    from assms call_unbind_again [OF True] show ?thesis by simp
  next
    case False
    from assms call_unbind_first [OF False] show ?thesis by auto
  qed
  then show "sharedFeatureServices s' = sharedFeatureServices s"
    and "configs s' = configs s"
    and "closures s' = closures s"
    and "unbound s \<subseteq> unbound s'"
    and "consumerUids s' \<subseteq> consumerUids s"
    by simp_all
qed

lemma call_unbind_returns:
  assumes "call_unbind h s = (Inr u, s')"
  shows "closure_id h \<notin> unbound s"
    and "unbound s' = insert (closure_id h) (unbound s)"
    and "consumerUids s' = consumerUids s - {closure_consumerUid h}"
proof -
  show fresh: "closure_id h \<notin> unbound s"
    using assms call_unbind_again [of h s] by auto
  from assms call_unbind_first [OF fresh]
  show "unbound s' = insert (closure_id h) (unbound s)"
    and "consumerUids s' = consumerUids s - {closure_consumerUid h}" by auto
qed

lemma client_step_unbound:
  "unbound (fst st) \<subseteq> unbound (fst (client_step E call st))"
proof (cases st)
  case (Pair s held)
  show ?thesis
  proof (cases call)
    case (Register defs c)
    obtain r s' where res: "registerFeatureServices E defs c s = (r, s')"
      by (cases "registerFeatureServices E defs c s")
    from registerFeatureServices_fields(1) [OF res] res Pair Register show ?thesis by simp
  next
    case (Bind d spec)
    obtain r s' where res: "bindFeatureServices E d spec s = (r, s')"
      by (cases "bindFeatureServices E d spec s")
    show ?thesis
    proof (cases r)
      case (Inl e)
      with res bindFeatureServices_throws(4) [of E d spec s e s'] Pair Bind show ?thesis by simp
    next
      case (Inr b)
      with res bindFeatureServices_returns(5) [of E d spec s b s'] Pair Bind show ?thesis by simp
    qed
  next
    case (Unbind i)
    show ?thesis
    proof (cases "i < length held")
      case True
      obtain r s' where res: "call_unbind (held ! i) s = (r, s')"
        by (cases "call_unbind (held ! i) s")
      from call_unbind_fields(4) [OF res] res True Pair Unbind show ?thesis by simp
    next
      case False
      with Pair Unbind show ?thesis by simp
    qed
  qed
qed

lemma client_run_unbound:
  "unbound (fst st) \<subseteq> unbound (fst (client_run E calls st))"
proof (induction calls arbitrary: st)
  case Nil
  then show ?case by (simp add: client_run_def)
next
  case (Cons call calls)
  have "client_run E (call # calls) st = client_run E calls (client_step E call st)"
    by (simp add: client_run_def)
  with Cons.IH [of "client_step E call st"] client_step_unbound [of st E call]
  show ?case by auto
qed

text \<open>The errors of the loop are not the error of a second bind.\<close>

lemma bindFeatureService_not_already_bound:
  "bindFeatureService E p uid rv opt s \<noteq> (Inl (Error (featureServicesAlreadyBound u)), s')"
  by (simp add: bindFeatureService_def give_up_def Let_def
      split: option.splits if_splits prod.splits sum.splits)

lemma bind_loop_not_already_bound:
  "bind_loop E uid deps allDeps ks acc s \<noteq> (Inl (Error (featureServicesAlreadyBound u)), s')"
proof (induction ks arbitrary: acc s)
  case Nil
  then show ?case by simp
next
  case (Cons k ks)
  show ?case
  proof (cases "hasOwnProperty deps ''hasOwnProperty''")
    case True
    from bind_loop_shadowed [OF True, of E uid allDeps k ks acc s]
    show ?thesis by simp
  next
    case False
    note unshadowed = False
    obtain r1 s1 where step:
      "bindFeatureService E k uid (obj_read allDeps k) (\<not> hasOwnProperty deps k) s = (r1, s1)"
      by (cases "bindFeatureService E k uid (obj_read allDeps k) (\<not> hasOwnProperty deps k) s")
    show ?thesis
    proof (cases r1)
      case (Inl e)
      with step have eq: "bind_loop E uid deps allDeps (k # ks) acc s = (Inl e, s1)"
        by (simp only: bind_loop_throw [OF unshadowed])
      from step Inl bindFeatureService_not_already_bound [of E k uid "obj_read allDeps k"
          "\<not> hasOwnProperty deps k" s u s1]
      have "e \<noteq> Error (featureServicesAlreadyBound u)" by auto
      with eq show ?thesis by simp
    next
      case (Inr ob)
      show ?thesis
      proof (cases ob)
        case None
        with step Inr have
          "bind_loop E uid deps allDeps (k # ks) acc s = bind_loop E uid deps allDeps ks acc s1"
          by (simp only: bind_loop_skip [OF unshadowed])
        with Cons.IH [of acc s1] show ?thesis by simp
      next
        case (Some b)
        let ?s2 = "console_log (Info (featureServiceSuccessfullyBound k uid)) s1"
        let ?acc = "(Map_set (fst acc) k b, obj_set (snd acc) k (featureService b))"
        from step Inr Some have
          "bind_loop E uid deps allDeps (k # ks) acc s = bind_loop E uid deps allDeps ks ?acc ?s2"
          by (simp only: bind_loop_bound [OF unshadowed])
        with Cons.IH [of ?acc ?s2] show ?thesis by simp
      qed
    qed
  qed
qed

lemma bindFeatureServices_fresh_not_already_bound:
  assumes "createUid E (consumer_id d) spec \<notin> consumerUids s"
  shows "fst (bindFeatureServices E d spec s) \<noteq> Inl (Error (featureServicesAlreadyBound u))"
proof -
  let ?uid = "createUid E (consumer_id d) spec"
  let ?all = "spread (or_empty (optionalDependencies d)) (or_empty (dependencies d))"
  obtain r1 s1 where loop:
    "bind_loop E ?uid (or_empty (dependencies d)) ?all (object_keys ?all) ([], []) s = (r1, s1)"
    by (cases "bind_loop E ?uid (or_empty (dependencies d)) ?all (object_keys ?all) ([], []) s")
  show ?thesis
  proof (cases r1)
    case (Inl e)
    with loop bind_loop_not_already_bound [of E ?uid "or_empty (dependencies d)" ?all
        "object_keys ?all" "([], [])" s u s1]
    have "e \<noteq> Error (featureServicesAlreadyBound u)" by auto
    with loop Inl bindFeatureServices_fresh [OF assms] show ?thesis by simp
  next
    case (Inr acc)
    with loop bindFeatureServices_fresh [OF assms] show ?thesis by simp
  qed
qed

text \<open>
  Claim C3. \<open>bindFeatureServices\<close> throws, and changes nothing, while the uid of the
  consumer is active; a bind that returns leaves the uid active, so that the next bind of
  the same definition and specifier throws, and the \<open>unbind\<close> it returned can be called
  (once). After a call of an \<open>unbind\<close> closure has returned, every later call of it
  throws, whatever the client has called in between; the uid of the closure is no longer
  active, and a bind of that uid does not fail for being bound already.
\<close>

theorem uid_is_bound_at_most_once:
  "(createUid E (consumer_id d) spec \<in> consumerUids s \<longrightarrow>
      bindFeatureServices E d spec s =
        (Inl (Error (featureServicesAlreadyBound (createUid E (consumer_id d) spec))), s)) \<and>
   (bindFeatureServices E d spec s = (Inr b, s1) \<longrightarrow>
      createUid E (consumer_id d) spec \<in> consumerUids s1 \<and>
      bindFeatureServices E d spec s1 =
        (Inl (Error (featureServicesAlreadyBound (createUid E (consumer_id d) spec))), s1) \<and>
      (closures_ok s \<longrightarrow> fst (call_unbind (unbind_handle b) s1) = Inr ())) \<and>
   (call_unbind h t = (Inr (), t1) \<and> client_run E calls (t1, held) = (t2, held2) \<longrightarrow>
      call_unbind h t2 =
        (Inl (Error (featureServicesAlreadyUnbound (closure_consumerUid h))), t2)) \<and>
   (call_unbind h t = (Inr (), t1) \<and> closure_consumerUid h = createUid E (consumer_id d) spec \<longrightarrow>
      createUid E (consumer_id d) spec \<notin> consumerUids t1 \<and>
      fst (bindFeatureServices E d spec t1) \<noteq>
        Inl (Error (featureServicesAlreadyBound (createUid E (consumer_id d) spec))))"
proof (intro conjI impI)
  assume "createUid E (consumer_id d) spec \<in> consumerUids s"
  then show "bindFeatureServices E d spec s =
        (Inl (Error (featureServicesAlreadyBound (createUid E (consumer_id d) spec))), s)"
    by (rule bindFeatureServices_already_bound)
next
  assume b: "bindFeatureServices E d spec s = (Inr b, s1)"
  from bindFeatureServices_returns(2) [OF b]
  show active: "createUid E (consumer_id d) spec \<in> consumerUids s1" by simp
  then show "bindFeatureServices E d spec s1 =
        (Inl (Error (featureServicesAlreadyBound (createUid E (consumer_id d) spec))), s1)"
    by (rule bindFeatureServices_already_bound)
next
  assume b: "bindFeatureServices E d spec s = (Inr b, s1)" and ok: "closures_ok s"
  from bindFeatureServices_returns(5,7) [OF b] ok
  have "closure_id (unbind_handle b) \<notin> unbound s1" by (auto simp: closures_ok_def)
  from call_unbind_first [OF this] show "fst (call_unbind (unbind_handle b) s1) = Inr ()" by simp
next
  assume a: "call_unbind h t = (Inr (), t1) \<and> client_run E calls (t1, held) = (t2, held2)"
  then have "closure_id h \<in> unbound t1" using call_unbind_returns(2) [of h t "()" t1] by simp
  moreover from a client_run_unbound [of "(t1, held)" E calls] have "unbound t1 \<subseteq> unbound t2"
    by simp
  ultimately have "closure_id h \<in> unbound t2" by blast
  then show "call_unbind h t2 =
        (Inl (Error (featureServicesAlreadyUnbound (closure_consumerUid h))), t2)"
    by (rule call_unbind_again)
next
  assume a: "call_unbind h t = (Inr (), t1) \<and>
      closure_consumerUid h = createUid E (consumer_id d) spec"
  then show free: "createUid E (consumer_id d) spec \<notin> consumerUids t1"
    using call_unbind_returns(3) [of h t "()" t1] by auto
  then show "fst (bindFeatureServices E d spec t1) \<noteq>
        Inl (Error (featureServicesAlreadyBound (createUid E (consumer_id d) spec)))"
    by (rule bindFeatureServices_fresh_not_already_bound)
qed


theorem uid_is_bound_at_most_once_witness:
  "fst (bindFeatureServices plain app None (snd app_bound)) =
     Inl (Error (featureServicesAlreadyBound ''app'')) \<and>
   fst (call_unbind app_unbind (snd app_bound)) = Inr () \<and>
   fst (call_unbind app_unbind
          (fst (client_run plain [Bind wants_v3 None, Unbind 0] (app_unbound, [])))) =
     Inl (Error (featureServicesAlreadyUnbound ''app'')) \<and>
   ''app'' \<notin> consumerUids app_unbound \<and>
   (\<exists>b s'. bindFeatureServices plain app None app_unbound = (Inr b, s'))"
proof -
  have uid: "createUid plain (consumer_id app) None = ''app''"
    by (simp add: app_def plain_def colon_uid_def)
  have "\<exists>b s1. bindFeatureServices plain app None with_svc = (Inr b, s1)"
    by (simp add: with_svc_def fresh_registry_def svc_def svc_versions_def app_def
        stub_version_def run_defs)
  then obtain b s1 where b: "bindFeatureServices plain app None with_svc = (Inr b, s1)" by blast
  then have ab: "snd app_bound = s1" "app_unbind = unbind_handle b"
    by (simp_all add: app_bound_def app_unbind_def)
  have "unbound with_svc = unbound fresh_registry"
    using registerFeatureServices_fields(1) [of plain "[svc]" "''integrator''" fresh_registry
        "fst (registerFeatureServices plain [svc] ''integrator'' fresh_registry)" with_svc]
    by (simp add: with_svc_def)
  then have ok: "closures_ok with_svc"
    by (simp add: closures_ok_def fresh_registry_def new_registry_def)
  obtain t2 held2 where run:
    "client_run plain [Bind wants_v3 None, Unbind 0] (app_unbound, []) = (t2, held2)"
    by (cases "client_run plain [Bind wants_v3 None, Unbind 0] (app_unbound, [])")
  note inst = uid_is_bound_at_most_once [where E = plain and d = app and spec = None
      and s = with_svc and b = b and ?s1.0 = s1 and h = app_unbind and t = s1
      and ?t1.0 = app_unbound and calls = "[Bind wants_v3 None, Unbind 0]" and held = "[]"
      and ?t2.0 = t2 and ?held2.0 = held2]
  from inst b uid have again:
    "fst (bindFeatureServices plain app None (snd app_bound)) =
     Inl (Error (featureServicesAlreadyBound ''app''))" by (simp add: ab)
  from inst b ok have first: "fst (call_unbind app_unbind (snd app_bound)) = Inr ()"
    by (simp add: ab)
  then have call: "call_unbind app_unbind s1 = (Inr (), app_unbound)"
    by (simp add: app_unbound_def ab prod_eq_iff)
  from inst call run have later:
    "fst (call_unbind app_unbind
          (fst (client_run plain [Bind wants_v3 None, Unbind 0] (app_unbound, [])))) =
     Inl (Error (featureServicesAlreadyUnbound (closure_consumerUid app_unbind)))"
    by simp
  have huid: "closure_consumerUid app_unbind = ''app''"
    using bindFeatureServices_returns(8) [OF b] uid ab by simp
  from inst call huid uid have free: "''app'' \<notin> consumerUids app_unbound" by simp
  have rebind: "\<exists>b s'. bindFeatureServices plain app None app_unbound = (Inr b, s')"
    by (simp add: app_unbound_def app_unbind_def app_bound_def call_unbind_def unbind_one_def
        stub_unbind_def with_svc_def fresh_registry_def svc_def svc_versions_def app_def
        stub_version_def run_defs)
  from again first later huid free rebind show ?thesis by simp
qed


section \<open>The uid of a registered provider\<close>

lemma fold_byId_id:
  "(\<forall>q d. m0 q = Some d \<longrightarrow> consumer_id d = q) \<Longrightarrow>
   fold (\<lambda>definition byId. byId(consumer_id definition \<mapsto> definition)) defs m0 q = Some d \<Longrightarrow>
   consumer_id d = q"
proof (induction defs arbitrary: m0)
  case Nil
  then show ?case by simp
next
  case (Cons a defs)
  have inv: "\<forall>q d. (m0(consumer_id a \<mapsto> a)) q = Some d \<longrightarrow> consumer_id d = q"
    using Cons.prems(1) by simp
  from Cons.prems(2) have
    "fold (\<lambda>definition byId. byId(consumer_id definition \<mapsto> definition)) defs
       (m0(consumer_id a \<mapsto> a)) q = Some d" by (simp only: fold_simps)
  from Cons.IH [OF inv this] show ?case .
qed

lemma createProviderDefinitionById_id:
  "createProviderDefinitionById defs q = Some d \<Longrightarrow> consumer_id d = q"
  unfolding createProviderDefinitionById_def
  by (rule fold_byId_id [of Map.empty]) simp_all


lemma register_one_newly_registered:
  assumes "register_one E byId c q s = (r, s')"
    and "sharedFeatureServices s P = None"
    and "sharedFeatureServices s' P = Some x"
    and "\<forall>q d. byId q = Some d \<longrightarrow> consumer_id d = q"
  shows "createUid E P None \<notin> consumerUids s \<and> createUid E P None \<in> consumerUids s'"
  using assms(1)
proof (cases rule: register_one_cases)
  case (registered y d)
  with assms(2,3) show ?thesis by simp
next
  case skipped
  with assms(2,3) show ?thesis by simp
next
  case (bind_throws d e)
  from bindFeatureServices_throws(1) [OF bind_throws(3)] assms(2,3) show ?thesis by simp
next
  case (create_throws d b s1 y w)
  from bindFeatureServices_returns(1) [OF create_throws(3)] create_throws(5) assms(2,3)
  show ?thesis by simp
next
  case (invalid d b s1 sfs w)
  from bindFeatureServices_returns(1) [OF invalid(3)] invalid(6) assms(2,3)
  show ?thesis by simp
next
  case (commits d b s1 sfs w)
  note ret = bindFeatureServices_returns [OF commits(3)]
  have "q = P"
  proof (rule ccontr)
    assume "q \<noteq> P"
    with commits(6) ret(1) have "sharedFeatureServices s' P = sharedFeatureServices s P" by simp
    with assms(2,3) show False by simp
  qed
  with assms(4) commits(2) have "consumer_id d = P" by blast
  with ret(2,3) commits(6) show ?thesis by simp
qed

lemma register_loop_newly_registered:
  assumes "\<forall>q d. byId q = Some d \<longrightarrow> consumer_id d = q"
  shows "register_loop E byId c ps s = (r, s') \<Longrightarrow> sharedFeatureServices s P = None \<Longrightarrow>
         sharedFeatureServices s' P = Some x \<Longrightarrow>
         createUid E P None \<notin> consumerUids s \<and> createUid E P None \<in> consumerUids s'"
proof (induction ps arbitrary: s)
  case Nil
  then show ?case by simp
next
  case (Cons q ps)
  obtain r1 s1 where step: "register_one E byId c q s = (r1, s1)"
    by (cases "register_one E byId c q s")
  note f = register_one_fields [OF step]
  have rest_grows: "consumerUids s1 \<subseteq> consumerUids s'"
  proof (cases r1)
    case (Inl e)
    with step Cons.prems(1) show ?thesis
      by (simp add: register_loop_throw del: register_loop.simps)
  next
    case (Inr u)
    with step Cons.prems(1) have "register_loop E byId c ps s1 = (r, s')"
      by (simp add: register_loop_continue del: register_loop.simps)
    from register_loop_fields [OF this] show ?thesis by simp
  qed
  show ?case
  proof (cases "sharedFeatureServices s1 P")
    case (Some y)
    from register_one_newly_registered [OF step Cons.prems(2) Some assms] rest_grows
    show ?thesis by blast
  next
    case None
    show ?thesis
    proof (cases r1)
      case (Inl e)
      with step Cons.prems(1) have "s' = s1"
        by (simp add: register_loop_throw del: register_loop.simps)
      with None Cons.prems(3) show ?thesis by simp
    next
      case (Inr u)
      with step Cons.prems(1) have "register_loop E byId c ps s1 = (r, s')"
        by (simp add: register_loop_continue del: register_loop.simps)
      from Cons.IH [OF this None Cons.prems(3)] f(3) show ?thesis by blast
    qed
  qed
qed

lemma registerFeatureServices_newly_registered:
  assumes "registerFeatureServices E defs c s = (r, s')"
    and "sharedFeatureServices s P = None"
    and "sharedFeatureServices s' P = Some x"
  shows "createUid E P None \<notin> consumerUids s \<and> createUid E P None \<in> consumerUids s'"
proof (cases "toposortDependencies E (createDependencyGraph defs)")
  case (Inl e)
  with assms show ?thesis by (simp add: registerFeatureServices_def)
next
  case (Inr order)
  with assms(1) have "register_loop E (createProviderDefinitionById defs) c order s = (r, s')"
    by (simp add: registerFeatureServices_def)
  moreover have "\<forall>q d. createProviderDefinitionById defs q = Some d \<longrightarrow> consumer_id d = q"
    using createProviderDefinitionById_id by blast
  ultimately show ?thesis
    using register_loop_newly_registered [where byId = "createProviderDefinitionById defs"
        and E = E and c = c and ps = order and s = s and r = r and s' = s' and P = P and x = x]
      assms(2,3) by blast
qed




text \<open>How the closures that a client holds fare under changes of the registry.\<close>

lemma held_ok_grow:
  assumes "held_ok s held" and "unbound s' = unbound s"
    and "consumerUids s \<subseteq> consumerUids s'" and "closures s \<le> closures s'"
  shows "held_ok s' held"
  unfolding held_ok_def
proof (intro ballI conjI impI)
  fix h assume h: "h \<in> set held"
  with assms(1) have "closure_id h < closures s" by (simp add: held_ok_def)
  with assms(4) show "closure_id h < closures s'" by simp
next
  fix h assume h: "h \<in> set held" and live: "closure_id h \<notin> unbound s'"
  with assms(1,2) have "closure_consumerUid h \<in> consumerUids s" by (simp add: held_ok_def)
  with assms(3) show "closure_consumerUid h \<in> consumerUids s'" by blast
next
  fix h h' assume h: "h \<in> set held" and live: "closure_id h \<notin> unbound s'"
    and h': "h' \<in> set held"
    and same: "closure_id h' \<notin> unbound s' \<and> closure_consumerUid h' = closure_consumerUid h"
  with assms(1,2) show "closure_id h' = closure_id h" by (simp add: held_ok_def)
qed

lemma closures_ok_grow:
  "closures_ok s \<Longrightarrow> unbound s' = unbound s \<Longrightarrow> closures s \<le> closures s' \<Longrightarrow> closures_ok s'"
  by (auto simp: closures_ok_def)

lemma held_ok_bind:
  assumes "held_ok s held" and "uid \<notin> consumerUids s" and "unbound s' = unbound s"
    and "consumerUids s' = insert uid (consumerUids s)" and "closures s' = Suc (closures s)"
    and "closure_id hn = closures s" and "closure_consumerUid hn = uid"
  shows "held_ok s' (held @ [hn])"
proof -
  have old_uid: "closure_consumerUid h \<noteq> uid"
    if "h \<in> set held" "closure_id h \<notin> unbound s" for h
    using that assms(1,2) by (auto simp: held_ok_def)
  have old_id: "closure_id h < closures s" if "h \<in> set held" for h
    using that assms(1) by (simp add: held_ok_def)
  show ?thesis
    unfolding held_ok_def
  proof (intro ballI conjI impI)
    fix h assume "h \<in> set (held @ [hn])"
    then show "closure_id h < closures s'"
      using old_id assms(5,6) by (auto simp: less_Suc_eq)
  next
    fix h assume "h \<in> set (held @ [hn])" and "closure_id h \<notin> unbound s'"
    then show "closure_consumerUid h \<in> consumerUids s'"
      using assms(1,3,4,7) by (auto simp: held_ok_def)
  next
    fix h h' assume h: "h \<in> set (held @ [hn])" and live: "closure_id h \<notin> unbound s'"
      and h': "h' \<in> set (held @ [hn])"
      and same: "closure_id h' \<notin> unbound s' \<and> closure_consumerUid h' = closure_consumerUid h"
    show "closure_id h' = closure_id h"
    proof (cases "h \<in> set held")
      case True
      from old_uid [OF True] live assms(3) have hu: "closure_consumerUid h \<noteq> uid" by simp
      with same assms(7) h' have "h' \<in> set held" by auto
      with True live same assms(1,3) show ?thesis by (simp add: held_ok_def)
    next
      case False
      with h have hn: "h = hn" by simp
      show ?thesis
      proof (cases "h' \<in> set held")
        case True
        from old_uid [OF True] same assms(3) have "closure_consumerUid h' \<noteq> uid" by simp
        with same hn assms(7) show ?thesis by simp
      next
        case False
        with h' have "h' = hn" by simp
        with hn show ?thesis by simp
      qed
    qed
  qed
qed

lemma held_ok_unbind:
  assumes "held_ok s held" and "h0 \<in> set held" and "closure_id h0 \<notin> unbound s"
    and "unbound s' = insert (closure_id h0) (unbound s)"
    and "consumerUids s' = consumerUids s - {closure_consumerUid h0}"
    and "closures s' = closures s"
  shows "held_ok s' held"
  unfolding held_ok_def
proof (intro ballI conjI impI)
  fix h assume "h \<in> set held"
  with assms(1,6) show "closure_id h < closures s'" by (simp add: held_ok_def)
next
  fix h assume h: "h \<in> set held" and live: "closure_id h \<notin> unbound s'"
  from live assms(4) have ne: "closure_id h \<noteq> closure_id h0" and live0: "closure_id h \<notin> unbound s"
    by simp_all
  from assms(1) h live0 have active: "closure_consumerUid h \<in> consumerUids s"
    by (simp add: held_ok_def)
  have "closure_consumerUid h \<noteq> closure_consumerUid h0"
  proof
    assume eq: "closure_consumerUid h = closure_consumerUid h0"
    from assms(1) h live0 assms(2,3) eq have "closure_id h0 = closure_id h"
      unfolding held_ok_def by metis
    with ne show False by simp
  qed
  with active assms(5) show "closure_consumerUid h \<in> consumerUids s'" by simp
next
  fix h h' assume h: "h \<in> set held" and live: "closure_id h \<notin> unbound s'"
    and h': "h' \<in> set held"
    and same: "closure_id h' \<notin> unbound s' \<and> closure_consumerUid h' = closure_consumerUid h"
  with assms(1,4) show "closure_id h' = closure_id h" by (simp add: held_ok_def)
qed


lemma client_step_held_ok:
  assumes "held_ok s held" and "closures_ok s"
    and "client_step E call (s, held) = (s', held')"
  shows "held_ok s' held' \<and> closures_ok s'"
proof (cases call)
  case (Register defs c)
  obtain r where res: "registerFeatureServices E defs c s = (r, s')" and h: "held' = held"
    using assms(3) Register by (cases "registerFeatureServices E defs c s") auto
  note f = registerFeatureServices_fields [OF res]
  from held_ok_grow [OF assms(1) f(1,3,4)] closures_ok_grow [OF assms(2) f(1,4)] h
  show ?thesis by simp
next
  case (Bind d spec)
  obtain r s1 where res: "bindFeatureServices E d spec s = (r, s1)"
    by (cases "bindFeatureServices E d spec s")
  show ?thesis
  proof (cases r)
    case (Inl e)
    with res assms(3) Bind have eq: "s' = s1" "held' = held" by simp_all
    from res Inl have t: "bindFeatureServices E d spec s = (Inl e, s1)" by simp
    note f = bindFeatureServices_throws(2,4,5) [OF t]
    from f have g: "unbound s1 = unbound s" "consumerUids s \<subseteq> consumerUids s1"
      "closures s \<le> closures s1" by simp_all
    from held_ok_grow [OF assms(1) g] closures_ok_grow [OF assms(2) g(1,3)] eq
    show ?thesis by simp
  next
    case (Inr b)
    with res assms(3) Bind have eq: "s' = s1" "held' = held @ [unbind_handle b]" by simp_all
    from res Inr have t: "bindFeatureServices E d spec s = (Inr b, s1)" by simp
    note f = bindFeatureServices_returns [OF t]
    have "held_ok s1 (held @ [unbind_handle b])"
      by (rule held_ok_bind [OF assms(1) f(3) f(5) f(2) f(6) f(7) f(8)])
    moreover have "closures_ok s1"
      using closures_ok_grow [OF assms(2) f(5)] f(6) by simp
    ultimately show ?thesis using eq by simp
  qed
next
  case (Unbind i)
  show ?thesis
  proof (cases "i < length held")
    case False
    with assms Unbind show ?thesis by simp
  next
    case True
    then have mem: "held ! i \<in> set held" by simp
    from True assms(3) Unbind have eq: "s' = snd (call_unbind (held ! i) s)" "held' = held"
      by auto
    show ?thesis
    proof (cases "closure_id (held ! i) \<in> unbound s")
      case already: True
      from call_unbind_again [OF already] eq assms(1,2) show ?thesis by simp
    next
      case live: False
      let ?h = "held ! i"
      from call_unbind_first [OF live] eq have
        f: "unbound s' = insert (closure_id ?h) (unbound s)"
        "consumerUids s' = consumerUids s - {closure_consumerUid ?h}"
        "closures s' = closures s" by simp_all
      have "held_ok s' held"
        by (rule held_ok_unbind [OF assms(1) mem live f])
      moreover from assms(1) mem have "closure_id ?h < closures s" by (simp add: held_ok_def)
      with assms(2) f have "closures_ok s'" by (auto simp: closures_ok_def)
      ultimately show ?thesis using eq by simp
    qed
  qed
qed

lemma client_run_held_ok:
  "held_ok (fst st) (snd st) \<Longrightarrow> closures_ok (fst st) \<Longrightarrow>
   held_ok (fst (client_run E calls st)) (snd (client_run E calls st)) \<and>
   closures_ok (fst (client_run E calls st))"
proof (induction calls arbitrary: st)
  case Nil
  then show ?case by (simp add: client_run_def)
next
  case (Cons call calls)
  have unfold: "client_run E (call # calls) st = client_run E calls (client_step E call st)"
    by (simp add: client_run_def)
  have "client_step E call (fst st, snd st) =
      (fst (client_step E call st), snd (client_step E call st))" by simp
  from client_step_held_ok [OF Cons.prems this]
  have "held_ok (fst (client_step E call st)) (snd (client_step E call st))"
    and "closures_ok (fst (client_step E call st))" by simp_all
  from Cons.IH [OF this] unfold show ?case by simp
qed

lemma client_step_pinned:
  assumes "pinned u s held" and "client_step E call (s, held) = (s', held')"
  shows "pinned u s' held'"
proof (cases call)
  case (Register defs c)
  obtain r where res: "registerFeatureServices E defs c s = (r, s')" and h: "held' = held"
    using assms(2) Register by (cases "registerFeatureServices E defs c s") auto
  note f = registerFeatureServices_fields(1,3) [OF res]
  from assms(1) f h show ?thesis by (auto simp: pinned_def)
next
  case (Bind d spec)
  obtain r s1 where res: "bindFeatureServices E d spec s = (r, s1)"
    by (cases "bindFeatureServices E d spec s")
  show ?thesis
  proof (cases r)
    case (Inl e)
    with res assms(2) Bind have eq: "s' = s1" "held' = held" by simp_all
    from res Inl have t: "bindFeatureServices E d spec s = (Inl e, s1)" by simp
    from bindFeatureServices_throws(2,4) [OF t] assms(1) eq show ?thesis
      by (simp add: pinned_def)
  next
    case (Inr b)
    with res assms(2) Bind have eq: "s' = s1" "held' = held @ [unbind_handle b]" by simp_all
    from res Inr have t: "bindFeatureServices E d spec s = (Inr b, s1)" by simp
    note f = bindFeatureServices_returns [OF t]
    from assms(1) f(3) have "closure_consumerUid (unbind_handle b) \<noteq> u"
      by (auto simp: pinned_def f(8))
    with assms(1) f(2,5) eq show ?thesis by (auto simp: pinned_def)
  qed
next
  case (Unbind i)
  show ?thesis
  proof (cases "i < length held")
    case False
    with assms Unbind show ?thesis by simp
  next
    case True
    then have mem: "held ! i \<in> set held" by simp
    from True assms(2) Unbind have eq: "s' = snd (call_unbind (held ! i) s)" "held' = held"
      by auto
    show ?thesis
    proof (cases "closure_id (held ! i) \<in> unbound s")
      case already: True
      from call_unbind_again [OF already] eq assms(1) show ?thesis by simp
    next
      case live: False
      let ?h = "held ! i"
      from call_unbind_first [OF live] eq have
        f: "unbound s' = insert (closure_id ?h) (unbound s)"
        "consumerUids s' = consumerUids s - {closure_consumerUid ?h}" by simp_all
      from assms(1) mem live have "closure_consumerUid ?h \<noteq> u" by (auto simp: pinned_def)
      with assms(1) f eq show ?thesis by (auto simp: pinned_def)
    qed
  qed
qed

lemma client_run_pinned:
  "pinned u (fst st) (snd st) \<Longrightarrow>
   pinned u (fst (client_run E calls st)) (snd (client_run E calls st))"
proof (induction calls arbitrary: st)
  case Nil
  then show ?case by (simp add: client_run_def)
next
  case (Cons call calls)
  have unfold: "client_run E (call # calls) st = client_run E calls (client_step E call st)"
    by (simp add: client_run_def)
  have "client_step E call (fst st, snd st) =
      (fst (client_step E call st), snd (client_step E call st))" by simp
  from client_step_pinned [OF Cons.prems this]
  have "pinned u (fst (client_step E call st)) (snd (client_step E call st))" .
  from Cons.IH [OF this] unfold show ?case by simp
qed

lemma registration_pins:
  assumes "held_ok s held"
    and "registerFeatureServices E defs c s = (r, s1)"
    and "sharedFeatureServices s P = None"
    and "sharedFeatureServices s1 P = Some x"
  shows "pinned (createUid E P None) s1 held"
proof -
  from registerFeatureServices_newly_registered [OF assms(2,3,4)]
  have free: "createUid E P None \<notin> consumerUids s" and active: "createUid E P None \<in> consumerUids s1"
    by simp_all
  have same: "unbound s1 = unbound s" by (rule registerFeatureServices_fields(1) [OF assms(2)])
  have "closure_id h \<in> unbound s1" if "h \<in> set held" "closure_consumerUid h = createUid E P None" for h
  proof (rule ccontr)
    assume "closure_id h \<notin> unbound s1"
    with same have "closure_id h \<notin> unbound s" by simp
    with assms(1) that(1) have "closure_consumerUid h \<in> consumerUids s" by (simp add: held_ok_def)
    with that(2) free show False by simp
  qed
  with active show ?thesis by (simp add: pinned_def)
qed

text \<open>
  Claim C10. Take a registry as its constructor leaves it and any client. Once a call of
  \<open>registerFeatureServices\<close> has registered a provider id, whether or not the call went on
  to throw, the uid made of that id and no specifier is active and stays so whatever the
  client calls afterwards: every bind of a consumer with that id and no specifier throws
  the error of a second bind and changes nothing. And when \<open>bindFeatureServices\<close> throws
  it leaves the active uids as they were, has created no \<open>unbind\<close> closure, and the only
  callbacks it has invoked are version functions of providers: no \<open>unbind\<close> of a binding
  it had obtained.
\<close>

theorem registration_never_releases_the_provider_uid:
  "(client_run E earlier (new_registry cfgs w0, []) = (s, held) \<and>
    registerFeatureServices E defs c s = (r, s1) \<and>
    sharedFeatureServices s P = None \<and> sharedFeatureServices s1 P = Some x \<and>
    client_run E later (s1, held) = (s2, held2) \<and> consumer_id d = P \<longrightarrow>
      createUid E P None \<in> consumerUids s2 \<and>
      bindFeatureServices E d None s2 =
        (Inl (Error (featureServicesAlreadyBound (createUid E P None))), s2)) \<and>
   (bindFeatureServices E d' spec t = (Inl e, t') \<longrightarrow>
      consumerUids t' = consumerUids t \<and> closures t' = closures t \<and> unbound t' = unbound t \<and>
      (\<exists>new. invocations t' = invocations t @ new \<and> list_all is_version_call new))"
proof (intro conjI impI)
  assume a: "client_run E earlier (new_registry cfgs w0, []) = (s, held) \<and>
    registerFeatureServices E defs c s = (r, s1) \<and>
    sharedFeatureServices s P = None \<and> sharedFeatureServices s1 P = Some x \<and>
    client_run E later (s1, held) = (s2, held2) \<and> consumer_id d = P"
  then have earlier: "client_run E earlier (new_registry cfgs w0, []) = (s, held)"
    and reg: "registerFeatureServices E defs c s = (r, s1)"
    and before: "sharedFeatureServices s P = None" and after: "sharedFeatureServices s1 P = Some x"
    and later: "client_run E later (s1, held) = (s2, held2)" and d: "consumer_id d = P"
    by simp_all
  have "held_ok (fst (new_registry cfgs w0, [])) (snd (new_registry cfgs w0, []))"
    and "closures_ok (fst (new_registry cfgs w0, []))"
    by (simp_all add: held_ok_def closures_ok_def new_registry_def)
  from client_run_held_ok [OF this, of E earlier] earlier have ok: "held_ok s held" by simp
  have "pinned (createUid E P None) (fst (s1, held)) (snd (s1, held))"
    using registration_pins [OF ok reg before after] by simp
  from client_run_pinned [OF this, of E later] later
  have "pinned (createUid E P None) s2 held2" by simp
  then show active: "createUid E P None \<in> consumerUids s2" by (simp add: pinned_def)
  with d have "createUid E (consumer_id d) None \<in> consumerUids s2" by simp
  from bindFeatureServices_already_bound [OF this] d
  show "bindFeatureServices E d None s2 =
        (Inl (Error (featureServicesAlreadyBound (createUid E P None))), s2)" by simp
next
  assume t: "bindFeatureServices E d' spec t = (Inl e, t')"
  from bindFeatureServices_throws [OF t]
  show "consumerUids t' = consumerUids t" and "closures t' = closures t"
    and "unbound t' = unbound t"
    and "\<exists>new. invocations t' = invocations t @ new \<and> list_all is_version_call new"
    by simp_all
qed


text \<open>More of the definitions that running an example unfolds.\<close>

lemmas client_defs =
  client_run_def call_unbind_def unbind_one_def stub_unbind_def stub_version_def
  fresh_registry_def svc_def svc_versions_def

theorem registration_never_releases_the_provider_uid_witness:
  "fst (bindFeatureServices plain impostor None (fst later_client)) =
     Inl (Error (featureServicesAlreadyBound ''svc'')) \<and>
   fst (bindFeatureServices plain half None with_svc) =
     Inl (Error (featureServiceNotRegistered False ''missing'' ''half'')) \<and>
   ''half'' \<notin> consumerUids (snd (bindFeatureServices plain half None with_svc)) \<and>
   world (snd (bindFeatureServices plain half None with_svc)) = [''create svc'', ''svc 1''] \<and>
   list_all is_version_call
     (drop (length (invocations with_svc))
        (invocations (snd (bindFeatureServices plain half None with_svc))))"
proof -
  have uid: "createUid plain ''svc'' None = ''svc''"
    by (simp add: plain_def colon_uid_def)
  have earlier: "client_run plain [Bind impostor None, Unbind 0] (new_registry None [], []) =
      (fst stale_client, snd stale_client)"
    by (simp add: stale_client_def fresh_registry_def)
  have reg: "registerFeatureServices plain [svc] ''integrator'' (fst stale_client) =
      (fst (registerFeatureServices plain [svc] ''integrator'' (fst stale_client)), svc_pinned)"
    by (simp add: svc_pinned_def)
  have before: "sharedFeatureServices (fst stale_client) ''svc'' = None"
    by (simp add: stale_client_def impostor_def client_defs run_defs)
  have "\<exists>x. sharedFeatureServices svc_pinned ''svc'' = Some x"
    by (simp add: svc_pinned_def stale_client_def impostor_def client_defs run_defs)
  then obtain x where after: "sharedFeatureServices svc_pinned ''svc'' = Some x" by blast
  have later: "client_run plain [Unbind 0, Bind app None] (svc_pinned, snd stale_client) =
      (fst later_client, snd later_client)"
    by (simp add: later_client_def)
  have d: "consumer_id impostor = ''svc''" by (simp add: impostor_def)
  have thrown: "fst (bindFeatureServices plain half None with_svc) =
      Inl (Error (featureServiceNotRegistered False ''missing'' ''half''))"
    by (simp add: half_def with_svc_def app_def client_defs run_defs)
  then have t: "bindFeatureServices plain half None with_svc =
      (Inl (Error (featureServiceNotRegistered False ''missing'' ''half'')),
       snd (bindFeatureServices plain half None with_svc))"
    by (simp add: prod_eq_iff)
  have w: "world (snd (bindFeatureServices plain half None with_svc)) = [''create svc'', ''svc 1'']"
    by (simp add: half_def with_svc_def app_def client_defs run_defs)
  have free: "''half'' \<notin> consumerUids with_svc"
    by (simp add: with_svc_def client_defs run_defs)
  note inst = registration_never_releases_the_provider_uid [where E = plain
      and earlier = "[Bind impostor None, Unbind 0]" and cfgs = None and ?w0.0 = "[]"
      and s = "fst stale_client" and held = "snd stale_client" and defs = "[svc]"
      and c = "''integrator''"
      and r = "fst (registerFeatureServices plain [svc] ''integrator'' (fst stale_client))"
      and ?s1.0 = svc_pinned and P = "''svc''" and x = x
      and later = "[Unbind 0, Bind app None]" and ?s2.0 = "fst later_client"
      and ?held2.0 = "snd later_client" and d = impostor and d' = half and spec = None
      and t = with_svc and e = "Error (featureServiceNotRegistered False ''missing'' ''half'')"
      and t' = "snd (bindFeatureServices plain half None with_svc)"]
  from inst earlier reg before after later d uid have pinned:
    "fst (bindFeatureServices plain impostor None (fst later_client)) =
     Inl (Error (featureServicesAlreadyBound ''svc''))" by simp
  from inst t obtain new where
    same: "consumerUids (snd (bindFeatureServices plain half None with_svc)) = consumerUids with_svc"
    and new: "invocations (snd (bindFeatureServices plain half None with_svc)) =
       invocations with_svc @ new" "list_all is_version_call new"
    by blast
  from pinned thrown same free w new show ?thesis by simp
qed


section \<open>A dependency that is both required and optional\<close>









section \<open>Dependencies that cannot be bound, from the loop to the console\<close>










section \<open>Rendering until nothing is pending\<close>

lemma all_resolved_settle:
  "list_all (\<lambda>p. settles_after p = Some 0 \<and> rejects_with p = None) pending \<Longrightarrow>
   earliest_failure pending = None \<and> all_settled_after pending = Some 0"
  by (induction pending) simp_all

lemma await_all_resolved:
  "list_all (\<lambda>p. settles_after p = Some 0 \<and> rejects_with p = None) pending \<Longrightarrow>
   await_all pending = AllSettled 0"
  by (simp add: await_all_def all_resolved_settle)

lemma in_time_start: "in_time (case timeout of None \<Rightarrow> None | Some t \<Rightarrow> if 0 < t then Some t else None) 0"
  by (simp add: in_time_def split: option.splits)

lemma out_of_time_deadline:
  "out_of_time (Some limit) passes = Some (RenderingTimeout limit, passes)"
  by (simp add: out_of_time_def)

lemma render_loop_settles:
  "render_loop fuel render (Some limit) elapsed passes st = Some ended \<Longrightarrow>
   fst ended \<noteq> Unsettled"
proof (induction fuel arbitrary: elapsed passes st)
  case 0
  then show ?case by simp
next
  case (Suc fuel)
  obtain r pending st' where step: "render st = (r, pending, st')"
    by (cases "render st") auto
  show ?case
  proof (cases r)
    case (Inl err)
    with step Suc.prems show ?thesis by auto
  next
    case (Inr out)
    show ?thesis
    proof (cases "pending = []")
      case True
      with step Inr Suc.prems show ?thesis by auto
    next
      case False
      show ?thesis
      proof (cases "await_all pending")
        case (AllSettled d)
        show ?thesis
        proof (cases "in_time (Some limit) (elapsed + d)")
          case True
          with step Inr False AllSettled Suc.prems have
            "render_loop fuel render (Some limit) (elapsed + d) (Suc passes) st' = Some ended"
            by simp
          from Suc.IH [OF this] show ?thesis .
        next
          case late: False
          with step Inr False AllSettled Suc.prems show ?thesis
            by (auto simp: out_of_time_deadline)
        qed
      next
        case (Failed d err)
        with step Inr False Suc.prems show ?thesis
          by (auto simp: out_of_time_deadline split: if_splits)
      next
        case NeverSettles
        with step Inr False Suc.prems show ?thesis
          by (auto simp: out_of_time_deadline)
      qed
    qed
  qed
qed

lemma in_time_mono: "in_time deadline (a + b) \<Longrightarrow> in_time deadline a"
  by (simp add: in_time_def split: option.splits)

lemma settled_passes_step:
  assumes "settled_passes render st (d # waits) = Some stn"
  obtains out pending st' where "render st = (Inr out, pending, st')" "pending \<noteq> []"
    "await_all pending = AllSettled d" "settled_passes render st' waits = Some stn"
proof -
  obtain r pending st' where step: "render st = (r, pending, st')"
    by (cases "render st") auto
  with assms obtain out where "r = Inr out" by (cases r) simp_all
  with assms step that show ?thesis by (simp split: if_splits)
qed

lemma render_loop_settled_passes:
  "settled_passes render st waits = Some stn \<Longrightarrow>
   in_time deadline (elapsed + sum_list waits) \<Longrightarrow>
   render_loop (length waits + fuel) render deadline elapsed passes st =
     render_loop fuel render deadline (elapsed + sum_list waits) (passes + length waits) stn"
proof (induction waits arbitrary: st elapsed passes)
  case Nil
  then show ?case by simp
next
  case (Cons d waits)
  from Cons.prems(1) obtain out pending st' where
    step: "render st = (Inr out, pending, st')" "pending \<noteq> []" "await_all pending = AllSettled d"
    and rest: "settled_passes render st' waits = Some stn"
    by (rule settled_passes_step)
  from Cons.prems(2) have later: "in_time deadline ((elapsed + d) + sum_list waits)"
    by (simp add: add.assoc)
  then have now: "in_time deadline (elapsed + d)" by (rule in_time_mono)
  from step now have
    "render_loop (length (d # waits) + fuel) render deadline elapsed passes st =
     render_loop (length waits + fuel) render deadline (elapsed + d) (Suc passes) st'"
    by simp
  with Cons.IH [OF rest later, of "Suc passes"] show ?case by (simp add: add.assoc)
qed

lemma all_settled_never:
  "p \<in> set pending \<Longrightarrow> settles_after p = None \<Longrightarrow> all_settled_after pending = None"
  by (induction pending) (auto split: option.splits)

lemma all_settled_bound:
  "all_settled_after pending = Some d \<Longrightarrow> p \<in> set pending \<Longrightarrow>
   \<exists>t\<le>d. settles_after p = Some t"
proof (induction pending arbitrary: d)
  case Nil
  then show ?case by simp
next
  case (Cons a pending)
  from Cons.prems(1) obtain t m where
    a: "settles_after a = Some t" and m: "all_settled_after pending = Some m"
    and d: "d = max t m"
    by (auto split: option.splits)
  show ?case
  proof (cases "p = a")
    case True
    with a d show ?thesis by auto
  next
    case False
    with Cons.prems(2) have "p \<in> set pending" by simp
    from Cons.IH [OF m this] obtain t' where "t' \<le> m" "settles_after p = Some t'" by blast
    with d show ?thesis by auto
  qed
qed

lemma all_settled_attained:
  "all_settled_after pending = Some d \<Longrightarrow> pending \<noteq> [] \<Longrightarrow>
   \<exists>p\<in>set pending. settles_after p = Some d"
proof (induction pending arbitrary: d)
  case Nil
  then show ?case by simp
next
  case (Cons a pending)
  from Cons.prems(1) obtain t m where
    a: "settles_after a = Some t" and m: "all_settled_after pending = Some m"
    and d: "d = max t m"
    by (auto split: option.splits)
  show ?case
  proof (cases "m \<le> t")
    case True
    with a d show ?thesis by (auto simp: max_def)
  next
    case False
    then have "pending \<noteq> []" using m by (cases pending) auto
    from Cons.IH [OF m this] obtain p where "p \<in> set pending" "settles_after p = Some m" by blast
    with False d show ?thesis by (auto simp: max_def)
  qed
qed

lemma no_failure_fulfilled:
  "earliest_failure pending = None \<Longrightarrow> p \<in> set pending \<Longrightarrow> settles_after p = Some t \<Longrightarrow>
   rejects_with p = None"
  by (induction pending) (auto split: option.splits if_splits)

lemma no_rejection_no_failure:
  "list_all (\<lambda>q. rejects_with q = None) pending \<Longrightarrow> earliest_failure pending = None"
  by (induction pending) (auto split: option.splits)

lemma await_all_settled:
  "await_all pending = AllSettled d \<Longrightarrow>
   earliest_failure pending = None \<and> all_settled_after pending = Some d"
  by (simp add: await_all_def split: option.splits)

lemma await_all_never:
  "p \<in> set pending \<Longrightarrow> settles_after p = None \<Longrightarrow>
   list_all (\<lambda>q. rejects_with q = None) pending \<Longrightarrow> await_all pending = NeverSettles"
  by (simp add: await_all_def all_settled_never no_rejection_no_failure)

lemma render_loop_ends:
  assumes progress:
    "\<forall>st out pending st'. render st = (Inr out, pending, st') \<and> pending \<noteq> [] \<longrightarrow>
       await_all pending \<noteq> AllSettled 0"
  shows "elapsed \<le> limit \<Longrightarrow> limit - elapsed < fuel \<Longrightarrow>
     \<exists>ended. render_loop fuel render (Some limit) elapsed passes st = Some ended \<and>
       snd ended \<le> passes + (limit - elapsed) + 1"
proof (induction fuel arbitrary: elapsed passes st)
  case 0
  then show ?case by simp
next
  case (Suc fuel)
  obtain r pending st' where step: "render st = (r, pending, st')"
    by (cases "render st") auto
  show ?case
  proof (cases r)
    case (Inl err)
    with step show ?thesis by simp
  next
    case (Inr out)
    show ?thesis
    proof (cases "pending = []")
      case True
      with step Inr show ?thesis by simp
    next
      case False
      show ?thesis
      proof (cases "await_all pending")
        case (AllSettled d)
        from progress step Inr False AllSettled have pos: "0 < d" by (cases d) auto
        show ?thesis
        proof (cases "in_time (Some limit) (elapsed + d)")
          case True
          then have le: "elapsed + d \<le> limit" by (simp add: in_time_def)
          with pos Suc.prems have fuel: "limit - (elapsed + d) < fuel" by arith
          from Suc.IH [OF le fuel, of "Suc passes" st'] obtain ended where
            e: "render_loop fuel render (Some limit) (elapsed + d) (Suc passes) st' = Some ended"
            and n: "snd ended \<le> Suc passes + (limit - (elapsed + d)) + 1" by blast
          from n pos le have "snd ended \<le> passes + (limit - elapsed) + 1" by arith
          with e step Inr False AllSettled True show ?thesis by simp
        next
          case late: False
          with step Inr False AllSettled show ?thesis by (simp add: out_of_time_deadline)
        qed
      next
        case (Failed d err)
        with step Inr False show ?thesis by (simp add: out_of_time_deadline)
      next
        case NeverSettles
        with step Inr False show ?thesis by (simp add: out_of_time_deadline)
      qed
    qed
  qed
qed

text \<open>
  Claim C5, on the orchestrator as the specification describes it. When the render
  function hands over no promise, \<open>renderUntilCompleted\<close> resolves with its output after
  one invocation. When its first invocation hands over promises that are already resolved,
  one or several (each participant's request is in the pending set of the pass), and its
  second hands over none, \<open>renderUntilCompleted\<close> resolves with the output of the second
  invocation after two invocations. The requests of a pass are waited for as a union: a
  wait that succeeds lasts until every promise of the set is fulfilled, and no longer than
  the slowest of them takes; and when any promise of the set never settles (and none
  rejects, and no timeout is configured), no further pass follows and the returned
  promise never settles, wherever that promise stands in the set. In general, after any
  number of passes whose waits succeed within the timeout, if one is configured, a pass
  that hands over nothing resolves the operation with its output, after one invocation
  more than there were waits. All of this holds with any fuel above the number of passes.
\<close>

theorem render_passes_until_nothing_is_pending:
  "(render st = (Inr out, [], st') \<longrightarrow>
      renderUntilCompleted (Suc fuel) render timeout st =
        Some \<lparr>outcome = Resolved out, invocations_of_render = 1, warned = (timeout = None)\<rparr>) \<and>
   (render st = (Inr out1, pending, st1) \<and> pending \<noteq> [] \<and>
    list_all (\<lambda>p. settles_after p = Some 0 \<and> rejects_with p = None) pending \<and>
    render st1 = (Inr out2, [], st2) \<longrightarrow>
      renderUntilCompleted (Suc (Suc fuel)) render timeout st =
        Some \<lparr>outcome = Resolved out2, invocations_of_render = 2, warned = (timeout = None)\<rparr>) \<and>
   (await_all requests = AllSettled d \<longrightarrow>
      (\<forall>p \<in> set requests. rejects_with p = None \<and> (\<exists>t\<le>d. settles_after p = Some t)) \<and>
      (requests \<noteq> [] \<longrightarrow> (\<exists>p \<in> set requests. settles_after p = Some d))) \<and>
   (render st = (Inr out, requests, st') \<and> p \<in> set requests \<and> settles_after p = None \<and>
    list_all (\<lambda>q. rejects_with q = None) requests \<longrightarrow>
      renderUntilCompleted (Suc fuel) render None st =
        Some \<lparr>outcome = Unsettled, invocations_of_render = 1, warned = True\<rparr>) \<and>
   (settled_passes render st waits = Some stn \<and> render stn = (Inr out, [], st') \<and>
    (case timeout of None \<Rightarrow> True | Some limit \<Rightarrow> limit = 0 \<or> sum_list waits \<le> limit) \<longrightarrow>
      renderUntilCompleted (Suc (length waits) + fuel) render timeout st =
        Some \<lparr>outcome = Resolved out, invocations_of_render = Suc (length waits),
              warned = (timeout = None)\<rparr>)"
proof (intro conjI impI)
  assume "render st = (Inr out, [], st')"
  then show "renderUntilCompleted (Suc fuel) render timeout st =
        Some \<lparr>outcome = Resolved out, invocations_of_render = 1, warned = (timeout = None)\<rparr>"
    by (simp add: renderUntilCompleted_def)
next
  assume a: "render st = (Inr out1, pending, st1) \<and> pending \<noteq> [] \<and>
    list_all (\<lambda>p. settles_after p = Some 0 \<and> rejects_with p = None) pending \<and>
    render st1 = (Inr out2, [], st2)"
  then have w: "await_all pending = AllSettled 0" by (simp add: await_all_resolved)
  let ?deadline = "case timeout of None \<Rightarrow> None | Some t \<Rightarrow> if 0 < t then Some t else None"
  from a have second: "render_loop (Suc fuel) render ?deadline 0 (Suc 0) st1 =
      Some (Resolved out2, Suc (Suc 0))" by simp
  from a w have "render_loop (Suc (Suc fuel)) render ?deadline 0 0 st =
      render_loop (Suc fuel) render ?deadline 0 (Suc 0) st1"
    using in_time_start [of timeout] by (simp del: render_loop.simps(2) add: render_loop.simps(2) [of "Suc fuel"])
  with second show "renderUntilCompleted (Suc (Suc fuel)) render timeout st =
        Some \<lparr>outcome = Resolved out2, invocations_of_render = 2, warned = (timeout = None)\<rparr>"
    by (simp add: renderUntilCompleted_def del: render_loop.simps)
next
  assume a: "await_all requests = AllSettled d"
  note s = await_all_settled [OF a]
  show "\<forall>p \<in> set requests. rejects_with p = None \<and> (\<exists>t\<le>d. settles_after p = Some t)"
  proof
    fix q
    assume q: "q \<in> set requests"
    from all_settled_bound [OF s [THEN conjunct2] q] obtain t where
      t: "t \<le> d" "settles_after q = Some t" by blast
    from no_failure_fulfilled [OF s [THEN conjunct1] q t(2)] t
    show "rejects_with q = None \<and> (\<exists>t\<le>d. settles_after q = Some t)" by blast
  qed
next
  assume a: "await_all requests = AllSettled d" and "requests \<noteq> []"
  with all_settled_attained [OF await_all_settled [OF a, THEN conjunct2]]
  show "\<exists>p \<in> set requests. settles_after p = Some d" by blast
next
  assume a: "render st = (Inr out, requests, st') \<and> p \<in> set requests \<and> settles_after p = None \<and>
    list_all (\<lambda>q. rejects_with q = None) requests"
  then have n: "await_all requests = NeverSettles"
    using await_all_never [of p requests] by simp
  from a have "requests \<noteq> []" by auto
  with a n show "renderUntilCompleted (Suc fuel) render None st =
        Some \<lparr>outcome = Unsettled, invocations_of_render = 1, warned = True\<rparr>"
    by (simp add: renderUntilCompleted_def out_of_time_def)
next
  assume a: "settled_passes render st waits = Some stn \<and> render stn = (Inr out, [], st') \<and>
    (case timeout of None \<Rightarrow> True | Some limit \<Rightarrow> limit = 0 \<or> sum_list waits \<le> limit)"
  let ?deadline = "case timeout of None \<Rightarrow> None | Some t \<Rightarrow> if 0 < t then Some t else None"
  from a have t: "in_time ?deadline (0 + sum_list waits)"
    by (auto simp: in_time_def split: option.splits)
  from a have p: "settled_passes render st waits = Some stn" by simp
  from a have last: "render_loop (Suc fuel) render ?deadline (0 + sum_list waits)
      (0 + length waits) stn = Some (Resolved out, Suc (length waits))" by simp
  from render_loop_settled_passes [OF p t, of "Suc fuel" 0] last
  have "render_loop (Suc (length waits) + fuel) render ?deadline 0 0 st =
      Some (Resolved out, Suc (length waits))" by (simp del: render_loop.simps)
  then show "renderUntilCompleted (Suc (length waits) + fuel) render timeout st =
        Some \<lparr>outcome = Resolved out, invocations_of_render = Suc (length waits),
              warned = (timeout = None)\<rparr>"
    by (simp add: renderUntilCompleted_def del: render_loop.simps)
qed

theorem render_passes_until_nothing_is_pending_witness:
  "renderUntilCompleted (Suc 0) integrator_only (Some 5) 0 =
     Some \<lparr>outcome = Resolved ''testHtml'', invocations_of_render = 1, warned = False\<rparr> \<and>
   renderUntilCompleted (Suc (Suc 0)) two_consumers (Some 5) 0 =
     Some \<lparr>outcome = Resolved ''testHtml'', invocations_of_render = 2, warned = False\<rparr> \<and>
   renderUntilCompleted (Suc (Suc 5)) two_consumers None 0 =
     Some \<lparr>outcome = Resolved ''testHtml'', invocations_of_render = 2, warned = True\<rparr> \<and>
   (\<exists>t\<le>3. settles_after (resolved :: string settle_promise) = Some t) \<and>
   renderUntilCompleted (Suc 0) one_stuck None 0 =
     Some \<lparr>outcome = Unsettled, invocations_of_render = 1, warned = True\<rparr> \<and>
   renderUntilCompleted (Suc (Suc (Suc 0))) slow_twice (Some 6) 0 =
     Some \<lparr>outcome = Resolved ''testHtml'', invocations_of_render = 3, warned = False\<rparr>"
proof -
  let ?never = "\<lparr>settles_after = None, rejects_with = None\<rparr> :: string settle_promise"
  let ?slow = "\<lparr>settles_after = Some 3, rejects_with = None\<rparr> :: string settle_promise"
  have one: "integrator_only 0 = (Inr ''testHtml'', [], 1)"
    by (simp add: integrator_only_def)
  have first: "two_consumers 0 = (Inr ''testHtml'', [resolved, resolved], 1)"
    and second: "two_consumers 1 = (Inr ''testHtml'', [], 2)"
    by (simp_all add: two_consumers_def)
  have both: "list_all (\<lambda>p. settles_after p = Some 0 \<and> rejects_with p = None)
      [resolved, resolved :: string settle_promise]"
    by (simp add: resolved_def)
  have mixed: "await_all [?slow, resolved] = AllSettled 3"
    by (simp add: await_all_def resolved_def)
  have stuck: "one_stuck 0 = (Inr ''testHtml'', [?never, resolved], 1)"
    by (simp add: one_stuck_def)
  have quiet: "list_all (\<lambda>q. rejects_with q = None) [?never, resolved]"
    by (simp add: resolved_def)
  have passes: "settled_passes slow_twice 0 [3, 3] = Some 2"
    by (simp add: slow_twice_def await_all_def)
  have third: "slow_twice 2 = (Inr ''testHtml'', [], 3)"
    by (simp add: slow_twice_def)
  note a = render_passes_until_nothing_is_pending [where render = integrator_only and st = 0
      and out = "''testHtml''" and st' = 1 and fuel = 0 and timeout = "Some 5"]
  note b = render_passes_until_nothing_is_pending [where render = two_consumers and st = 0
      and ?out1.0 = "''testHtml''" and pending = "[resolved, resolved]" and ?st1.0 = 1
      and ?out2.0 = "''testHtml''" and ?st2.0 = 2 and fuel = 0 and timeout = "Some 5"]
  note c = render_passes_until_nothing_is_pending [where render = two_consumers and st = 0
      and ?out1.0 = "''testHtml''" and pending = "[resolved, resolved]" and ?st1.0 = 1
      and ?out2.0 = "''testHtml''" and ?st2.0 = 2 and fuel = 5 and timeout = None]
  note d = render_passes_until_nothing_is_pending [where requests = "[?slow, resolved]"
      and d = 3]
  note e = render_passes_until_nothing_is_pending [where render = one_stuck and st = 0
      and out = "''testHtml''" and requests = "[?never, resolved]" and st' = 1 and p = ?never
      and fuel = 0]
  note f = render_passes_until_nothing_is_pending [where render = slow_twice and st = 0
      and waits = "[3, 3]" and stn = 2 and out = "''testHtml''" and st' = 3
      and timeout = "Some 6" and fuel = 0]
  from a [THEN conjunct1] one have r1:
    "renderUntilCompleted (Suc 0) integrator_only (Some 5) 0 =
     Some \<lparr>outcome = Resolved ''testHtml'', invocations_of_render = 1, warned = False\<rparr>"
    by simp
  from b [THEN conjunct2, THEN conjunct1] first second both have r2:
    "renderUntilCompleted (Suc (Suc 0)) two_consumers (Some 5) 0 =
     Some \<lparr>outcome = Resolved ''testHtml'', invocations_of_render = 2, warned = False\<rparr>"
    by simp
  from c [THEN conjunct2, THEN conjunct1] first second both have r3:
    "renderUntilCompleted (Suc (Suc 5)) two_consumers None 0 =
     Some \<lparr>outcome = Resolved ''testHtml'', invocations_of_render = 2, warned = True\<rparr>"
    by simp
  from d [THEN conjunct2, THEN conjunct2, THEN conjunct1] mixed have r4:
    "\<exists>t\<le>3. settles_after (resolved :: string settle_promise) = Some t"
    by simp
  from e [THEN conjunct2, THEN conjunct2, THEN conjunct2, THEN conjunct1] stuck quiet have r5:
    "renderUntilCompleted (Suc 0) one_stuck None 0 =
     Some \<lparr>outcome = Unsettled, invocations_of_render = 1, warned = True\<rparr>"
    by simp
  from f [THEN conjunct2, THEN conjunct2, THEN conjunct2, THEN conjunct2] passes third have r6:
    "renderUntilCompleted (Suc (Suc (Suc 0))) slow_twice (Some 6) 0 =
     Some \<lparr>outcome = Resolved ''testHtml'', invocations_of_render = 3, warned = False\<rparr>"
    by simp
  from r1 r2 r3 r4 r5 r6 show ?thesis by (intro conjI)
qed

text \<open>
  Claim C6, on the orchestrator as the specification describes it. With a positive timeout
  configured: when the first pass hands over promises none of which rejects and one of
  which never settles, the operation rejects with the timeout error after one invocation
  of the render function. The timeout runs over all passes together: after any number of
  passes whose waits succeed and together take no longer than the timeout, a wait that
  never ends, or that would end (by fulfilment or by a rejection) later than the timeout
  counted from the start, rejects the operation with the timeout error, after one
  invocation more than there were waits before it, although each wait alone may be
  shorter than the timeout. The operation ends: when every wait that succeeds takes at
  least a millisecond, fuel above the timeout in milliseconds suffices, the operation has
  ended after at most one invocation more than the timeout has milliseconds, and it has
  not stayed unsettled; and whenever it ends, it has not stayed unsettled.
\<close>

theorem one_timeout_for_the_whole_rendering:
  "(0 < limit \<and> render st = (Inr out, pending, st') \<and> p \<in> set pending \<and>
    settles_after p = None \<and> list_all (\<lambda>q. rejects_with q = None) pending \<longrightarrow>
      renderUntilCompleted (Suc fuel) render (Some limit) st =
        Some \<lparr>outcome = RenderingTimeout limit, invocations_of_render = 1, warned = False\<rparr>) \<and>
   (0 < limit \<and> settled_passes render st waits = Some stn \<and> sum_list waits \<le> limit \<and>
    render stn = (Inr out, pending, st') \<and> pending \<noteq> [] \<and>
    (await_all pending = NeverSettles \<or>
     (\<exists>d. await_all pending = AllSettled d \<and> limit < sum_list waits + d) \<or>
     (\<exists>d err. await_all pending = Failed d err \<and> limit < sum_list waits + d)) \<longrightarrow>
      renderUntilCompleted (Suc (length waits) + fuel) render (Some limit) st =
        Some \<lparr>outcome = RenderingTimeout limit, invocations_of_render = Suc (length waits),
              warned = False\<rparr>) \<and>
   (0 < limit \<and>
    (\<forall>st out pending st'. render st = (Inr out, pending, st') \<and> pending \<noteq> [] \<longrightarrow>
       await_all pending \<noteq> AllSettled 0) \<longrightarrow>
      (\<exists>ended. renderUntilCompleted (Suc limit + fuel) render (Some limit) st = Some ended \<and>
         outcome ended \<noteq> Unsettled \<and> invocations_of_render ended \<le> Suc limit)) \<and>
   (0 < limit \<and> renderUntilCompleted fuel render (Some limit) st = Some ended \<longrightarrow>
      outcome ended \<noteq> Unsettled)"
proof (intro conjI impI)
  assume a: "0 < limit \<and> render st = (Inr out, pending, st') \<and> p \<in> set pending \<and>
    settles_after p = None \<and> list_all (\<lambda>q. rejects_with q = None) pending"
  then have n: "await_all pending = NeverSettles"
    using await_all_never [of p pending] by simp
  from a have "pending \<noteq> []" by auto
  with a n show "renderUntilCompleted (Suc fuel) render (Some limit) st =
        Some \<lparr>outcome = RenderingTimeout limit, invocations_of_render = 1, warned = False\<rparr>"
    by (simp add: renderUntilCompleted_def out_of_time_deadline)
next
  assume a: "0 < limit \<and> settled_passes render st waits = Some stn \<and> sum_list waits \<le> limit \<and>
    render stn = (Inr out, pending, st') \<and> pending \<noteq> [] \<and>
    (await_all pending = NeverSettles \<or>
     (\<exists>d. await_all pending = AllSettled d \<and> limit < sum_list waits + d) \<or>
     (\<exists>d err. await_all pending = Failed d err \<and> limit < sum_list waits + d))"
  then have p: "settled_passes render st waits = Some stn"
    and t: "in_time (Some limit) (0 + sum_list waits)"
    by (simp_all add: in_time_def)
  from a have last: "render_loop (Suc fuel) render (Some limit) (0 + sum_list waits)
      (0 + length waits) stn = Some (RenderingTimeout limit, Suc (length waits))"
    by (auto simp: in_time_def out_of_time_deadline)
  from render_loop_settled_passes [OF p t, of "Suc fuel" 0] last
  have "render_loop (Suc (length waits) + fuel) render (Some limit) 0 0 st =
      Some (RenderingTimeout limit, Suc (length waits))" by (simp del: render_loop.simps)
  with a show "renderUntilCompleted (Suc (length waits) + fuel) render (Some limit) st =
        Some \<lparr>outcome = RenderingTimeout limit, invocations_of_render = Suc (length waits),
              warned = False\<rparr>"
    by (simp add: renderUntilCompleted_def del: render_loop.simps)
next
  assume a: "0 < limit \<and>
    (\<forall>st out pending st'. render st = (Inr out, pending, st') \<and> pending \<noteq> [] \<longrightarrow>
       await_all pending \<noteq> AllSettled 0)"
  then have progress:
    "\<forall>st out pending st'. render st = (Inr out, pending, st') \<and> pending \<noteq> [] \<longrightarrow>
       await_all pending \<noteq> AllSettled 0" by (rule conjunct2)
  from render_loop_ends [OF progress, of 0 limit "Suc limit + fuel" 0 st] obtain e where
    loop: "render_loop (Suc limit + fuel) render (Some limit) 0 0 st = Some e"
    and n: "snd e \<le> Suc limit" by auto
  from render_loop_settles [OF loop] have "fst e \<noteq> Unsettled" .
  with a loop n
  show "\<exists>ended. renderUntilCompleted (Suc limit + fuel) render (Some limit) st = Some ended \<and>
         outcome ended \<noteq> Unsettled \<and> invocations_of_render ended \<le> Suc limit"
    by (simp add: renderUntilCompleted_def del: render_loop.simps)
next
  assume a: "0 < limit \<and> renderUntilCompleted fuel render (Some limit) st = Some ended"
  then obtain e where loop: "render_loop fuel render (Some limit) 0 0 st = Some e"
    and ended: "outcome ended = fst e"
    by (auto simp: renderUntilCompleted_def split: option.splits)
  from render_loop_settles [OF loop] ended show "outcome ended \<noteq> Unsettled" by simp
qed

theorem one_timeout_for_the_whole_rendering_witness:
  "renderUntilCompleted (Suc 0) never_ready (Some 5) 0 =
     Some \<lparr>outcome = RenderingTimeout 5, invocations_of_render = 1, warned = False\<rparr> \<and>
   renderUntilCompleted (Suc (Suc 0)) slow_twice (Some 5) 0 =
     Some \<lparr>outcome = RenderingTimeout 5, invocations_of_render = 2, warned = False\<rparr> \<and>
   renderUntilCompleted (Suc (Suc (Suc 0))) steady (Some 5) 0 =
     Some \<lparr>outcome = RenderingTimeout 5, invocations_of_render = 3, warned = False\<rparr> \<and>
   (\<exists>ended. renderUntilCompleted (Suc 5) steady (Some 5) 0 = Some ended \<and>
      outcome ended \<noteq> Unsettled \<and> invocations_of_render ended \<le> Suc 5)"
proof -
  let ?never = "\<lparr>settles_after = None, rejects_with = None\<rparr> :: string settle_promise"
  let ?slow = "\<lparr>settles_after = Some 3, rejects_with = None\<rparr> :: string settle_promise"
  let ?two = "\<lparr>settles_after = Some 2, rejects_with = None\<rparr> :: string settle_promise"
  have never: "never_ready 0 = (Inr ''testHtml'', [?never], 1)"
    by (simp add: never_ready_def)
  have quiet: "list_all (\<lambda>q. rejects_with q = None) [?never]" by simp
  have slow_passes: "settled_passes slow_twice 0 [3] = Some 1"
    by (simp add: slow_twice_def await_all_def)
  have slow: "slow_twice 1 = (Inr ''testHtml'', [?slow], 2)"
    by (simp add: slow_twice_def)
  have wait: "await_all [?slow] = AllSettled 3" by (simp add: await_all_def)
  have steady_passes: "settled_passes steady 0 [2, 2] = Some 2"
    by (simp add: steady_def await_all_def)
  have steady: "steady 2 = (Inr ''testHtml'', [?two], 3)"
    by (simp add: steady_def)
  have wait2: "await_all [?two] = AllSettled 2" by (simp add: await_all_def)
  have progress: "\<forall>st out pending st'. steady st = (Inr out, pending, st') \<and> pending \<noteq> [] \<longrightarrow>
      await_all pending \<noteq> AllSettled 0"
    by (auto simp: steady_def await_all_def)
  note a = one_timeout_for_the_whole_rendering [where limit = 5 and render = never_ready
      and st = 0 and out = "''testHtml''" and pending = "[?never]" and st' = 1 and p = ?never
      and fuel = 0]
  note b = one_timeout_for_the_whole_rendering [where limit = 5 and render = slow_twice
      and st = 0 and waits = "[3]" and stn = 1 and out = "''testHtml''" and pending = "[?slow]"
      and st' = 2 and fuel = 0]
  note c = one_timeout_for_the_whole_rendering [where limit = 5 and render = steady
      and st = 0 and waits = "[2, 2]" and stn = 2 and out = "''testHtml''" and pending = "[?two]"
      and st' = 3 and fuel = 0]
  from a [THEN conjunct1] never quiet have r1:
    "renderUntilCompleted (Suc 0) never_ready (Some 5) 0 =
     Some \<lparr>outcome = RenderingTimeout 5, invocations_of_render = 1, warned = False\<rparr>"
    by simp
  from b [THEN conjunct2, THEN conjunct1] slow_passes slow wait have r2:
    "renderUntilCompleted (Suc (Suc 0)) slow_twice (Some 5) 0 =
     Some \<lparr>outcome = RenderingTimeout 5, invocations_of_render = 2, warned = False\<rparr>"
    by simp
  from c [THEN conjunct2, THEN conjunct1] steady_passes steady wait2 have r3:
    "renderUntilCompleted (Suc (Suc (Suc 0))) steady (Some 5) 0 =
     Some \<lparr>outcome = RenderingTimeout 5, invocations_of_render = 3, warned = False\<rparr>"
    by simp
  from c [THEN conjunct2, THEN conjunct2, THEN conjunct1] progress have r4:
    "\<exists>ended. renderUntilCompleted (Suc 5) steady (Some 5) 0 = Some ended \<and>
      outcome ended \<noteq> Unsettled \<and> invocations_of_render ended \<le> Suc 5"
    by simp
  from r1 r2 r3 r4 show ?thesis by (intro conjI)
qed


end
